theory Spec2Isabelle
  imports Complex_Main "HOL-Library.Word" "HOL-Library.List_Lexorder"
begin

chapter \<open>The model\<close>

section \<open>Strings and session identifiers\<close>

text \<open>
  A JavaScript string is a sequence of UTF-16 code units. Both the relational operator
  \<^verbatim>\<open><\<close> on two strings and the default comparator of \<^verbatim>\<open>Array.prototype.sort\<close>
  compare strings code unit by code unit, a proper prefix being smaller: this is the
  lexicographic order on lists of 16-bit words.
\<close>

type_synonym js_string = "16 word list"

text \<open>ASCII text as a JavaScript string, for writing concrete identifiers.\<close>

definition utf16 :: "string \<Rightarrow> js_string" where
  "utf16 s = map of_char s"

text \<open>\<^verbatim>\<open>Array.prototype.join(sep)\<close> on an array of strings.\<close>

fun join :: "js_string \<Rightarrow> js_string list \<Rightarrow> js_string" where
  "join sep [] = []"
| "join sep [x] = x"
| "join sep (x # y # ys) = x @ sep @ join sep (y # ys)"

section \<open>Peer connection set-up: room name and initiator election\<close>

text \<open>
  From the main effect of \<^verbatim>\<open>useWebRTC\<close>:
  \<^verbatim>\<open>
    isInitiatorRef.current = myId < partnerId
    const roomId = [myId, partnerId].sort().join('-')
    const channel = supabase.channel(`webrtc:${roomId}`, ...)
  \<close>
\<close>

definition isInitiator :: "js_string \<Rightarrow> js_string \<Rightarrow> bool" where
  "isInitiator myId partnerId \<longleftrightarrow> myId < partnerId"

definition roomId :: "js_string \<Rightarrow> js_string \<Rightarrow> js_string" where
  "roomId myId partnerId = join (utf16 ''-'') (sort [myId, partnerId])"

definition channelName :: "js_string \<Rightarrow> js_string \<Rightarrow> js_string" where
  "channelName myId partnerId = utf16 ''webrtc:'' @ roomId myId partnerId"

section \<open>The connection manager\<close>

text \<open>
  The class \<^verbatim>\<open>ConnectionManager\<close>. Its fields \<^verbatim>\<open>state\<close>, \<^verbatim>\<open>retryCount\<close>,
  \<^verbatim>\<open>config\<close> and \<^verbatim>\<open>listeners\<close> are fields of the record below. What the class does to
  the outside world is recorded in three further fields, which the class itself never
  reads: \<open>notified\<close> lists the listener invocations in the order they happen, \<open>retried\<close>
  the arguments of the \<^verbatim>\<open>onRetry\<close> calls, and \<open>delays\<close> the delays handed to
  \<^verbatim>\<open>setTimeout\<close> for the waits between attempts. The counter \<^verbatim>\<open>retryCount\<close> only
  ever holds natural numbers. The heartbeat and the timer handles
  play no part in what follows and are left out.
\<close>

datatype ConnectionState = Idle | Connecting | Connected | Reconnecting | Disconnected | Failed

record ConnectionConfig =
  maxRetries :: int
  retryDelay :: real
  retryBackoffMultiplier :: real
  connectionTimeout :: real
  heartbeatInterval :: real

definition DEFAULT_CONFIG :: ConnectionConfig where
  "DEFAULT_CONFIG = \<lparr>maxRetries = 5, retryDelay = 1000, retryBackoffMultiplier = 3 / 2,
     connectionTimeout = 30000, heartbeatInterval = 25000\<rparr>"

text \<open>
  A thrown value: an \<^verbatim>\<open>Error\<close> object with its message, or any other value, given by
  what \<^verbatim>\<open>String(value)\<close> yields for it.
\<close>

datatype thrown = Error string | NonError string

text \<open>
  A listener is a callback held in a \<^verbatim>\<open>Set\<close>; it is identified by a number, and the set
  is the list of its members in insertion order, which is the order \<^verbatim>\<open>forEach\<close> visits
  them in. What a callback does when it is called with a state is given from outside:
  it returns normally (\<open>None\<close>) or throws.
\<close>

type_synonym listener = nat
type_synonym listener_env = "listener \<Rightarrow> ConnectionState \<Rightarrow> thrown option"

record ConnectionManager =
  state :: ConnectionState
  retryCount :: nat
  config :: ConnectionConfig
  listeners :: "listener list"
  notified :: "(listener \<times> ConnectionState) list"
  retried :: "nat list"
  delays :: "real list"

text \<open>
  \<^verbatim>\<open>this.listeners.forEach(listener => listener(this.state))\<close>: the callbacks are called
  in order; there is no handler around the call, so the first exception ends the
  iteration and propagates.
\<close>

fun forEach :: "listener_env \<Rightarrow> ConnectionState \<Rightarrow> listener list
    \<Rightarrow> (listener \<times> ConnectionState) list \<Rightarrow> thrown option \<times> (listener \<times> ConnectionState) list" where
  "forEach L s [] calls = (None, calls)"
| "forEach L s (l # ls) calls =
     (case L l s of
        Some e \<Rightarrow> (Some e, calls @ [(l, s)])
      | None \<Rightarrow> forEach L s ls (calls @ [(l, s)]))"

definition notifyListeners :: "listener_env \<Rightarrow> ConnectionManager \<Rightarrow> thrown option \<times> ConnectionManager" where
  "notifyListeners L m =
     (case forEach L (state m) (listeners m) (notified m) of
        (r, calls) \<Rightarrow> (r, m\<lparr>notified := calls\<rparr>))"

text \<open>
  \<^verbatim>\<open>
  setState(state) {
    if (this.state !== state) { this.state = state; this.notifyListeners() }
  }
  \<close>
\<close>

definition setState :: "listener_env \<Rightarrow> ConnectionState \<Rightarrow> ConnectionManager
    \<Rightarrow> thrown option \<times> ConnectionManager" where
  "setState L s m = (if state m \<noteq> s then notifyListeners L (m\<lparr>state := s\<rparr>) else (None, m))"

definition subscribe :: "listener \<Rightarrow> ConnectionManager \<Rightarrow> ConnectionManager" where
  "subscribe l m = (if l \<in> set (listeners m) then m else m\<lparr>listeners := listeners m @ [l]\<rparr>)"

definition unsubscribe :: "listener \<Rightarrow> ConnectionManager \<Rightarrow> ConnectionManager" where
  "unsubscribe l m = m\<lparr>listeners := removeAll l (listeners m)\<rparr>"

text \<open>
  One call of the operation raced against the connection timeout: the operation resolves
  first, rejects (or throws) first, or the timer wins and rejects with
  \<^verbatim>\<open>new Error('Connection timeout')\<close>. The operation is given as a function of the
  attempt counter at the time of the call.
\<close>

datatype 'a outcome = Resolves 'a | Rejects thrown | TimesOut

datatype 'a completion = Returns 'a | Throws "thrown option"

text \<open>\<^verbatim>\<open>error instanceof Error ? error : new Error(String(error))\<close>\<close>

definition normalise :: "thrown \<Rightarrow> thrown" where
  "normalise e = (case e of Error msg \<Rightarrow> Error msg | NonError v \<Rightarrow> Error v)"

text \<open>
  The body of the \<^verbatim>\<open>try\<close> block of one loop iteration. An exception of a listener
  called from \<^verbatim>\<open>setState\<close> inside the block is caught like a failure of the operation.
\<close>

definition attempt :: "listener_env \<Rightarrow> (nat \<Rightarrow> 'a outcome) \<Rightarrow> ConnectionManager
    \<Rightarrow> (thrown + 'a) \<times> ConnectionManager" where
  "attempt L operation m =
     (case setState L (if retryCount m = 0 then Connecting else Reconnecting) m of
        (Some e, m1) \<Rightarrow> (Inl e, m1)
      | (None, m1) \<Rightarrow>
          (case operation (retryCount m1) of
             Rejects e \<Rightarrow> (Inl e, m1)
           | TimesOut \<Rightarrow> (Inl (Error ''Connection timeout''), m1)
           | Resolves v \<Rightarrow>
               (case setState L Connected m1 of
                  (Some e, m2) \<Rightarrow> (Inl e, m2)
                | (None, m2) \<Rightarrow> (Inr v, m2\<lparr>retryCount := 0\<rparr>))))"

text \<open>
  JavaScript numbers are IEEE double-precision floats. The numbers of the configuration
  and the delays are given by their values, which are reals. The product of two doubles
  and \<^verbatim>\<open>Math.pow\<close> are the platform's and round their results; they are given from
  outside, and nothing is assumed of them. The exponent \<^verbatim>\<open>this.retryCount - 1\<close> is a
  natural number wherever the delay is computed.
\<close>

record float64 =
  float_mul :: "real \<Rightarrow> real \<Rightarrow> real"
  Math_pow :: "real \<Rightarrow> nat \<Rightarrow> real"

text \<open>
  \<^verbatim>\<open>this.config.retryDelay * Math.pow(this.config.retryBackoffMultiplier, this.retryCount - 1)\<close>
\<close>

definition backoff :: "float64 \<Rightarrow> ConnectionConfig \<Rightarrow> nat \<Rightarrow> real" where
  "backoff F c k = float_mul F (retryDelay c) (Math_pow F (retryBackoffMultiplier c) (k - 1))"

text \<open>Neither notification nor \<^verbatim>\<open>setState\<close> touches the counter, the configuration or the delays.\<close>

lemma notify_fields [simp]:
  "retryCount (snd (notifyListeners L m)) = retryCount m"
  "config (snd (notifyListeners L m)) = config m"
  "state (snd (notifyListeners L m)) = state m"
  "listeners (snd (notifyListeners L m)) = listeners m"
  "delays (snd (notifyListeners L m)) = delays m"
  "retried (snd (notifyListeners L m)) = retried m"
  by (simp_all add: notifyListeners_def split: prod.splits)

lemma setState_fields [simp]:
  "retryCount (snd (setState L s m)) = retryCount m"
  "config (snd (setState L s m)) = config m"
  "state (snd (setState L s m)) = s"
  "listeners (snd (setState L s m)) = listeners m"
  "delays (snd (setState L s m)) = delays m"
  "retried (snd (setState L s m)) = retried m"
  by (simp_all add: setState_def)

lemma attempt_fail_fields:
  assumes "attempt L operation m = (Inl e, m1)"
  shows "retryCount m1 = retryCount m" "config m1 = config m" "delays m1 = delays m"
    "retried m1 = retried m" "listeners m1 = listeners m"
proof -
  let ?s = "if retryCount m = 0 then Connecting else Reconnecting"
  obtain r ma where a: "setState L ?s m = (r, ma)" by (cases "setState L ?s m")
  obtain r2 mb where b: "setState L Connected ma = (r2, mb)" by (cases "setState L Connected ma")
  have ma: "ma = snd (setState L ?s m)" using a by simp
  have mb: "mb = snd (setState L Connected ma)" using b by simp
  have "m1 = ma \<or> m1 = mb"
    using assms a b unfolding attempt_def
    by (auto split: option.splits outcome.splits if_splits)
  then show "retryCount m1 = retryCount m" "config m1 = config m" "delays m1 = delays m"
    "retried m1 = retried m" "listeners m1 = listeners m"
    using ma mb by auto
qed

text \<open>A failed attempt leaves the counter and the configuration as they were.\<close>

lemma attempt_fail_measure:
  "(Inl e, m1) = attempt L operation m \<Longrightarrow> retryCount m1 = retryCount m \<and> config m1 = config m"
  using attempt_fail_fields(1,2) [of L operation m e m1] by simp

text \<open>
  The \<^verbatim>\<open>catch\<close> block after \<^verbatim>\<open>lastError\<close> is set: the counter is incremented and, if
  attempts remain, \<^verbatim>\<open>onRetry\<close> is called (when given) and the wait is scheduled. An
  exception of \<^verbatim>\<open>onRetry\<close> leaves \<^verbatim>\<open>retry\<close> at once.
\<close>

definition catch_block :: "float64 \<Rightarrow> (nat \<Rightarrow> thrown option) option \<Rightarrow> ConnectionManager
    \<Rightarrow> (thrown \<times> ConnectionManager) + ConnectionManager" where
  "catch_block F onRetry m1 =
     (let m2 = m1\<lparr>retryCount := retryCount m1 + 1\<rparr>
      in if int (retryCount m2) < maxRetries (config m2) then
           (case onRetry of
              None \<Rightarrow> Inr (m2\<lparr>delays := delays m2 @ [backoff F (config m2) (retryCount m2)]\<rparr>)
            | Some cb \<Rightarrow>
                (case cb (retryCount m2) of
                   Some ex \<Rightarrow> Inl (ex, m2\<lparr>retried := retried m2 @ [retryCount m2]\<rparr>)
                 | None \<Rightarrow>
                     Inr (m2\<lparr>retried := retried m2 @ [retryCount m2],
                             delays := delays m2 @ [backoff F (config m2) (retryCount m2)]\<rparr>)))
         else Inr m2)"

lemma catch_block_measure:
  "catch_block F onRetry m1 = Inr m2 \<Longrightarrow> retryCount m2 = Suc (retryCount m1) \<and> config m2 = config m1"
  by (auto simp: catch_block_def Let_def split: if_splits option.splits)

text \<open>
  The \<^verbatim>\<open>while (this.retryCount < this.config.maxRetries)\<close> loop of \<^verbatim>\<open>retry\<close> with what
  follows it: \<^verbatim>\<open>this.setState('failed'); throw lastError\<close>.
\<close>

function retry_loop :: "float64 \<Rightarrow> listener_env \<Rightarrow> (nat \<Rightarrow> 'a outcome) \<Rightarrow> (nat \<Rightarrow> thrown option) option
    \<Rightarrow> thrown option \<Rightarrow> ConnectionManager \<Rightarrow> 'a completion \<times> ConnectionManager" where
  "retry_loop F L operation onRetry lastError m =
     (if int (retryCount m) < maxRetries (config m) then
        (case attempt L operation m of
           (Inr result, m1) \<Rightarrow> (Returns result, m1)
         | (Inl error, m1) \<Rightarrow>
             (case catch_block F onRetry m1 of
                Inl (ex, m2) \<Rightarrow> (Throws (Some ex), m2)
              | Inr m2 \<Rightarrow> retry_loop F L operation onRetry (Some (normalise error)) m2))
      else
        (case setState L Failed m of
           (Some ex, m1) \<Rightarrow> (Throws (Some ex), m1)
         | (None, m1) \<Rightarrow> (Throws lastError, m1)))"
  by pat_completeness auto
termination
proof (relation "measure (\<lambda>(F, L, operation, onRetry, lastError, m). nat (maxRetries (config m) - int (retryCount m)))")
  show "wf (measure (\<lambda>(F, L, operation, onRetry, lastError, m). nat (maxRetries (config m) - int (retryCount m))))"
    by simp
qed (auto dest!: attempt_fail_measure catch_block_measure)

declare retry_loop.simps [simp del]

text \<open>\<^verbatim>\<open>retry\<close> resets the counter and \<^verbatim>\<open>lastError\<close> and enters the loop.\<close>

definition retry :: "float64 \<Rightarrow> listener_env \<Rightarrow> (nat \<Rightarrow> 'a outcome) \<Rightarrow> (nat \<Rightarrow> thrown option) option
    \<Rightarrow> ConnectionManager \<Rightarrow> 'a completion \<times> ConnectionManager" where
  "retry F L operation onRetry m = retry_loop F L operation onRetry None (m\<lparr>retryCount := 0\<rparr>)"

text \<open>
  A manager as the constructor leaves it, with nothing observed yet. The constructor
  lays the given fields over \<open>DEFAULT_CONFIG\<close>; the argument here is the result.
\<close>

definition newManager :: "ConnectionConfig \<Rightarrow> ConnectionManager" where
  "newManager c = \<lparr>state = Idle, retryCount = 0, config = c, listeners = [], notified = [], retried = [], delays = []\<rparr>"

text \<open>The exception an attempt ends with, if the operation does not resolve in time.\<close>

definition failure_of :: "'a outcome \<Rightarrow> thrown option" where
  "failure_of r = (case r of Resolves v \<Rightarrow> None | Rejects e \<Rightarrow> Some e
     | TimesOut \<Rightarrow> Some (Error ''Connection timeout''))"

text \<open>
  The listeners a notification reaches: those in front of the first one that throws,
  and that one.
\<close>

definition delivered :: "listener_env \<Rightarrow> ConnectionState \<Rightarrow> listener list \<Rightarrow> listener list" where
  "delivered L s ls = takeWhile (\<lambda>l. L l s = None) ls @ take 1 (dropWhile (\<lambda>l. L l s = None) ls)"

section \<open>The matchmaking queue\<close>

text \<open>
  The route handlers of \<^verbatim>\<open>/api/matchmaking\<close> work on the table
  \<^verbatim>\<open>matchmaking_queue\<close> through the database client. A row has the columns the
  handlers read and write; \<^verbatim>\<open>id\<close> is called \<open>row_id\<close> here. Timestamps are points
  on a discrete clock. The table is the list of its rows.
\<close>

type_synonym timestamp = nat

datatype ChatType = Text | Video

record QueueRow =
  row_id :: nat
  session_id :: js_string
  chat_type :: ChatType
  matched_with :: "js_string option"
  matched_at :: "timestamp option"
  created_at :: timestamp

type_synonym matchmaking_queue = "QueueRow list"

text \<open>
  What a request takes from its surroundings: the server clock (\<^verbatim>\<open>new Date()\<close>), the
  \<^verbatim>\<open>created_at\<close> and \<^verbatim>\<open>id\<close> the database gives a row it inserts, and the error the
  client reports for the conditional update. The client reports an error when the
  request fails, and then nothing is written. An update whose filters select no row is
  not a failed request: the database carries it out, writes nothing, and the client
  reports no error. The handler does not ask for the number of rows written.
\<close>

record Env =
  now :: timestamp
  db_now :: timestamp
  new_id :: nat
  updateError :: "string option"

text \<open>
  The JSON answers: \<^verbatim>\<open>{matched: true, partnerId}\<close>, \<^verbatim>\<open>{matched: false, status}\<close>,
  \<^verbatim>\<open>{success: true}\<close>, and an error with its HTTP status.
\<close>

datatype MatchStatus = Searching | IdleStatus

datatype Response =
    MatchedWith js_string
  | Unmatched MatchStatus
  | Success
  | HttpError nat string

text \<open>
  The body of a POST request. An absent \<^verbatim>\<open>sessionId\<close> is the empty string (both are
  falsy), an absent \<^verbatim>\<open>chatType\<close> is \<open>None\<close>.
\<close>

record MatchRequest =
  sessionId :: js_string
  chatType :: "ChatType option"

text \<open>
  \<^verbatim>\<open>.maybeSingle()\<close>: the row if the query yields exactly one, \<^verbatim>\<open>null\<close> if it yields
  none; with several rows the client reports an error and the data is \<^verbatim>\<open>null\<close>.
\<close>

fun maybeSingle :: "'a list \<Rightarrow> 'a option" where
  "maybeSingle [] = None"
| "maybeSingle [r] = Some r"
| "maybeSingle (r # r' # rs) = None"

text \<open>
  \<^verbatim>\<open>.select('*').eq('session_id', sessionId).maybeSingle()\<close>
\<close>

definition select_by_session :: "matchmaking_queue \<Rightarrow> js_string \<Rightarrow> QueueRow option" where
  "select_by_session q sid = maybeSingle (filter (\<lambda>r. session_id r = sid) q)"

text \<open>
  \<^verbatim>\<open>
  .select('*').eq('chat_type', chatType).is('matched_with', null).neq('session_id', sessionId)
  .order('created_at', { ascending: true }).limit(1).maybeSingle()
  \<close>
  Rows with equal \<^verbatim>\<open>created_at\<close> keep their order in the table.
\<close>

definition is_candidate :: "js_string \<Rightarrow> ChatType \<Rightarrow> QueueRow \<Rightarrow> bool" where
  "is_candidate sid ct r \<longleftrightarrow> chat_type r = ct \<and> matched_with r = None \<and> session_id r \<noteq> sid"

definition select_potentialMatch :: "matchmaking_queue \<Rightarrow> js_string \<Rightarrow> ChatType \<Rightarrow> QueueRow option" where
  "select_potentialMatch q sid ct =
     maybeSingle (take 1 (sort_key created_at (filter (is_candidate sid ct) q)))"

text \<open>
  \<^verbatim>\<open>
  .update({ matched_with: sessionId, matched_at: now })
  .eq('id', potentialMatch.id).is('matched_with', null)
  \<close>
  The update writes every row the two filters select; \<open>rows_affected\<close> counts them.
\<close>

definition update_claim :: "matchmaking_queue \<Rightarrow> nat \<Rightarrow> js_string \<Rightarrow> timestamp \<Rightarrow> matchmaking_queue" where
  "update_claim q pid sid t =
     map (\<lambda>r. if row_id r = pid \<and> matched_with r = None
              then r\<lparr>matched_with := Some sid, matched_at := Some t\<rparr> else r) q"

definition rows_affected :: "matchmaking_queue \<Rightarrow> nat \<Rightarrow> nat" where
  "rows_affected q pid = length (filter (\<lambda>r. row_id r = pid \<and> matched_with r = None) q)"

text \<open>
  \<^verbatim>\<open>.upsert({session_id, chat_type, matched_with, matched_at}, { onConflict: 'session_id' })\<close>:
  a row with this \<^verbatim>\<open>session_id\<close> gets the three other columns overwritten and keeps
  its \<^verbatim>\<open>id\<close> and \<^verbatim>\<open>created_at\<close>; without one, a new row is inserted.
\<close>

definition upsert :: "Env \<Rightarrow> matchmaking_queue \<Rightarrow> js_string \<Rightarrow> ChatType \<Rightarrow> js_string option
    \<Rightarrow> timestamp option \<Rightarrow> matchmaking_queue" where
  "upsert env q sid ct mw mt =
     (if \<exists>r\<in>set q. session_id r = sid
      then map (\<lambda>r. if session_id r = sid
                     then r\<lparr>chat_type := ct, matched_with := mw, matched_at := mt\<rparr> else r) q
      else q @ [\<lparr>row_id = new_id env, session_id = sid, chat_type = ct, matched_with = mw,
                 matched_at = mt, created_at = db_now env\<rparr>])"

text \<open>
  \<^verbatim>\<open>.delete().eq('session_id', sessionId)\<close>
\<close>

definition delete_by_session :: "matchmaking_queue \<Rightarrow> js_string \<Rightarrow> matchmaking_queue" where
  "delete_by_session q sid = filter (\<lambda>r. session_id r \<noteq> sid) q"

text \<open>
  Truthiness of a nullable string: \<^verbatim>\<open>null\<close> and the empty string are falsy.
\<close>

definition truthy :: "js_string option \<Rightarrow> bool" where
  "truthy v \<longleftrightarrow> (case v of None \<Rightarrow> False | Some s \<Rightarrow> s \<noteq> [])"

text \<open>
  The conditional update as the handler sees it: the reported error and the table after
  the call.
\<close>

definition update_matched_with :: "Env \<Rightarrow> matchmaking_queue \<Rightarrow> nat \<Rightarrow> js_string \<Rightarrow> timestamp
    \<Rightarrow> string option \<times> matchmaking_queue" where
  "update_matched_with env q pid sid t =
     (case updateError env of
        None \<Rightarrow> (None, update_claim q pid sid t)
      | Some err \<Rightarrow> (Some err, q))"

text \<open>
  The POST handler from \<^verbatim>\<open>if (potentialMatch)\<close> to its end, on the table as it is
  when the update is sent. Between the query that found \<^verbatim>\<open>potentialMatch\<close> and this
  update the handler awaits, and other requests may have written the table.
  \<^verbatim>\<open>
  if (potentialMatch) {
    const { error: updateError } = await ... update ...
    if (!updateError) { await ... upsert(matched_with: potentialMatch.session_id) ...
                        return { matched: true, partnerId: potentialMatch.session_id } }
  }
  await ... upsert(matched_with: null) ...
  return { matched: false, status: 'searching' }
  \<close>
\<close>

definition POST_claim :: "Env \<Rightarrow> matchmaking_queue \<Rightarrow> js_string \<Rightarrow> ChatType \<Rightarrow> QueueRow option
    \<Rightarrow> matchmaking_queue \<times> Response" where
  "POST_claim env q sid ct potentialMatch =
     (case potentialMatch of
        Some pm \<Rightarrow>
          (case update_matched_with env q (row_id pm) sid (now env) of
             (None, q1) \<Rightarrow>
               (upsert env q1 sid ct (Some (session_id pm)) (Some (now env)),
                MatchedWith (session_id pm))
           | (Some err, q1) \<Rightarrow> (upsert env q1 sid ct None None, Unmatched Searching))
      | None \<Rightarrow> (upsert env q sid ct None None, Unmatched Searching))"

text \<open>
  The POST handler (\<^verbatim>\<open>tryMatch\<close>), with no other request in between. A body that
  cannot be parsed (\<open>None\<close>) makes \<^verbatim>\<open>req.json()\<close> throw, which the handler answers
  with status 500.
  \<^verbatim>\<open>
  if (!sessionId || !chatType) return ... status 400
  const { data: existingEntry } = ...
  if (existingEntry?.matched_with) return { matched: true, partnerId: existingEntry.matched_with }
  const { data: potentialMatch } = ...
  \<close>
\<close>

definition POST :: "Env \<Rightarrow> matchmaking_queue \<Rightarrow> MatchRequest option
    \<Rightarrow> matchmaking_queue \<times> Response" where
  "POST env q req =
     (case req of
        None \<Rightarrow> (q, HttpError 500 ''Matchmaking failed'')
      | Some body \<Rightarrow>
          if sessionId body = [] then (q, HttpError 400 ''Session ID and chat type required'')
          else
            (case chatType body of
               None \<Rightarrow> (q, HttpError 400 ''Session ID and chat type required'')
             | Some ct \<Rightarrow>
                 (case select_by_session q (sessionId body) of
                    Some existingEntry \<Rightarrow>
                      if truthy (matched_with existingEntry)
                      then (q, MatchedWith (the (matched_with existingEntry)))
                      else POST_claim env q (sessionId body) ct
                             (select_potentialMatch q (sessionId body) ct)
                  | None \<Rightarrow>
                      POST_claim env q (sessionId body) ct
                        (select_potentialMatch q (sessionId body) ct))))"

text \<open>
  The GET handler (\<^verbatim>\<open>pollMatch\<close>) and the DELETE handler (\<^verbatim>\<open>cancel\<close>); the
  parameter is \<^verbatim>\<open>searchParams.get('sessionId')\<close>. GET writes nothing.
\<close>

definition GET :: "matchmaking_queue \<Rightarrow> js_string option \<Rightarrow> matchmaking_queue \<times> Response" where
  "GET q param =
     (case param of
        None \<Rightarrow> (q, HttpError 400 ''Session ID required'')
      | Some sid \<Rightarrow>
          if sid = [] then (q, HttpError 400 ''Session ID required'')
          else
            (case select_by_session q sid of
               Some entry \<Rightarrow>
                 if truthy (matched_with entry) then (q, MatchedWith (the (matched_with entry)))
                 else (q, Unmatched Searching)
             | None \<Rightarrow> (q, Unmatched IdleStatus)))"

definition DELETE :: "matchmaking_queue \<Rightarrow> js_string option \<Rightarrow> matchmaking_queue \<times> Response" where
  "DELETE q param =
     (case param of
        None \<Rightarrow> (q, HttpError 400 ''Session ID required'')
      | Some sid \<Rightarrow>
          if sid = [] then (q, HttpError 400 ''Session ID required'')
          else (delete_by_session q sid, Success))"

text \<open>
  The same request sent several times in a row, each time in its own surroundings.
\<close>

fun POST_repeat :: "Env list \<Rightarrow> matchmaking_queue \<Rightarrow> MatchRequest \<Rightarrow> matchmaking_queue" where
  "POST_repeat [] q body = q"
| "POST_repeat (env # envs) q body = POST_repeat envs (fst (POST env q (Some body))) body"

text \<open>At most one row for each session id; the rows of one session.\<close>

definition one_per_session :: "matchmaking_queue \<Rightarrow> bool" where
  "one_per_session q \<longleftrightarrow> distinct (map session_id q)"

definition entries_of :: "matchmaking_queue \<Rightarrow> js_string \<Rightarrow> QueueRow list" where
  "entries_of q sid = filter (\<lambda>r. session_id r = sid) q"

section \<open>ICE candidates that arrive early\<close>

text \<open>
  The hook \<^verbatim>\<open>useWebRTC\<close> keeps the peer connection in \<^verbatim>\<open>pcRef\<close> and the candidates that
  came too early in \<^verbatim>\<open>pendingCandidatesRef\<close>. Of the browser's connection object the
  model keeps the remote description and the list of the candidates handed to
  \<^verbatim>\<open>addIceCandidate\<close>, in the order of the calls. A rejected \<^verbatim>\<open>addIceCandidate\<close> is
  caught and logged by the hook and changes nothing else, so only the call is recorded.
  The signaling state is the browser's; the handlers only read it. The model follows one
  connection from its creation; the teardown of the hook is not among its events.
\<close>

datatype SignalingState = Stable | HaveLocalOffer | HaveRemoteOffer | HaveLocalPranswer
  | HaveRemotePranswer | Closed

record ('c, 'd) RTCPeerConnection =
  remoteDescription :: "'d option"
  addIceCalls :: "'c list"

text \<open>
  The references of the hook. A call of \<^verbatim>\<open>addPendingCandidates\<close> awaits each
  \<^verbatim>\<open>addIceCandidate\<close>, and other handlers run in between; \<open>draining\<close> holds, for every
  call of \<^verbatim>\<open>addPendingCandidates\<close> that reached its loop, the part of its local array
  \<^verbatim>\<open>candidates\<close> the loop has not come to yet.
\<close>

record ('c, 'd) WebRTCRefs =
  pcRef :: "('c, 'd) RTCPeerConnection option"
  pendingCandidates :: "'c list"
  draining :: "'c list list"

text \<open>
  What happens to the hook: a broadcast arrives (an ICE candidate, an offer or an answer,
  each with the \<^verbatim>\<open>to\<close> field of its payload), or a loop of \<^verbatim>\<open>addPendingCandidates\<close> goes
  on with its next candidate. An offer or answer comes with what the browser will say:
  the signaling state the handler reads, and whether \<^verbatim>\<open>setRemoteDescription\<close> resolves.
\<close>

datatype ('i, 'd) event =
    IceCandidate js_string 'i
  | Offer js_string 'd SignalingState bool
  | Answer js_string 'd SignalingState bool
  | Resume nat

text \<open>
  The test \<^verbatim>\<open>pcRef.current?.remoteDescription\<close>.
\<close>

definition hasRemoteDescription :: "('c, 'd) WebRTCRefs \<Rightarrow> bool" where
  "hasRemoteDescription s \<longleftrightarrow>
     (case pcRef s of None \<Rightarrow> False | Some pc \<Rightarrow> remoteDescription pc \<noteq> None)"

definition addIceCandidate :: "('c, 'd) RTCPeerConnection \<Rightarrow> 'c \<Rightarrow> ('c, 'd) RTCPeerConnection" where
  "addIceCandidate pc c = pc\<lparr>addIceCalls := addIceCalls pc @ [c]\<rparr>"

definition setRemoteDescription :: "('c, 'd) RTCPeerConnection \<Rightarrow> 'd \<Rightarrow> ('c, 'd) RTCPeerConnection" where
  "setRemoteDescription pc d = pc\<lparr>remoteDescription := Some d\<rparr>"

text \<open>
  \<^verbatim>\<open>
  if (!pcRef.current || !pcRef.current.remoteDescription) return
  const candidates = [...pendingCandidatesRef.current]
  pendingCandidatesRef.current = []
  for (const candidate of candidates) { try { await pcRef.current.addIceCandidate(candidate) } catch ... }
  \<close>
  The copy, the clearing and the first call of \<^verbatim>\<open>addIceCandidate\<close> happen without an
  \<^verbatim>\<open>await\<close> between them. Each later turn of the loop waits for the call before it and
  is a \<open>resume\<close>; a turn that finds nothing left ends the loop. If the connection is
  gone when the loop goes on, the call throws inside the \<^verbatim>\<open>try\<close> and the loop goes to
  the next candidate.
\<close>

definition addPendingCandidates :: "('c, 'd) WebRTCRefs \<Rightarrow> ('c, 'd) WebRTCRefs" where
  "addPendingCandidates s =
     (if \<not> hasRemoteDescription s then s
      else
        (case pendingCandidates s of
           [] \<Rightarrow> s\<lparr>pendingCandidates := [], draining := draining s @ [[]]\<rparr>
         | c # cs \<Rightarrow>
             s\<lparr>pcRef := map_option (\<lambda>pc. addIceCandidate pc c) (pcRef s),
               pendingCandidates := [], draining := draining s @ [cs]\<rparr>))"

definition resume :: "nat \<Rightarrow> ('c, 'd) WebRTCRefs \<Rightarrow> ('c, 'd) WebRTCRefs" where
  "resume k s =
     (if k < length (draining s) then
        (case draining s ! k of
           [] \<Rightarrow> s
         | c # cs \<Rightarrow>
             (case pcRef s of
                Some pc \<Rightarrow> s\<lparr>pcRef := Some (addIceCandidate pc c), draining := (draining s)[k := cs]\<rparr>
              | None \<Rightarrow> s\<lparr>draining := (draining s)[k := cs]\<rparr>))
      else s)"

text \<open>
  The handler of \<^verbatim>\<open>ice-candidate\<close>. The constructor \<^verbatim>\<open>RTCIceCandidate\<close> is the
  browser's; where it throws (\<open>None\<close>) the handler ends.
  \<^verbatim>\<open>
  if (payload.to !== myId) return
  const candidate = new RTCIceCandidate(payload.candidate)
  if (pcRef.current?.remoteDescription) { try { await pcRef.current.addIceCandidate(candidate) } catch ... }
  else { pendingCandidatesRef.current.push(candidate) }
  \<close>
\<close>

definition on_ice_candidate :: "('i \<Rightarrow> 'c option) \<Rightarrow> js_string \<Rightarrow> js_string \<Rightarrow> 'i
    \<Rightarrow> ('c, 'd) WebRTCRefs \<Rightarrow> ('c, 'd) WebRTCRefs" where
  "on_ice_candidate RTCIceCandidate myId to init s =
     (if to \<noteq> myId then s
      else
        (case RTCIceCandidate init of
           None \<Rightarrow> s
         | Some candidate \<Rightarrow>
             if hasRemoteDescription s
             then s\<lparr>pcRef := map_option (\<lambda>pc. addIceCandidate pc candidate) (pcRef s)\<rparr>
             else s\<lparr>pendingCandidates := pendingCandidates s @ [candidate]\<rparr>))"

text \<open>
  The handlers of \<^verbatim>\<open>offer\<close> and \<^verbatim>\<open>answer\<close> up to the call of
  \<^verbatim>\<open>addPendingCandidates\<close>; a rejected \<^verbatim>\<open>setRemoteDescription\<close> is caught and ends the
  handler. What the offer handler does afterwards (creating and sending the answer)
  touches neither the buffer nor the candidates.
  \<^verbatim>\<open>
  if (payload.to !== myId || !pcRef.current) return
  if (pcRef.current.signalingState !== 'stable') return          // offer
  if (pcRef.current.signalingState === 'have-local-offer') ...   // answer
  await pcRef.current.setRemoteDescription(...)
  await addPendingCandidates()
  \<close>
\<close>

definition on_offer :: "js_string \<Rightarrow> js_string \<Rightarrow> 'd \<Rightarrow> SignalingState \<Rightarrow> bool
    \<Rightarrow> ('c, 'd) WebRTCRefs \<Rightarrow> ('c, 'd) WebRTCRefs" where
  "on_offer myId to offer signalingState accepted s =
     (case pcRef s of
        None \<Rightarrow> s
      | Some pc \<Rightarrow>
          if to \<noteq> myId then s
          else if signalingState \<noteq> Stable then s
          else if \<not> accepted then s
          else addPendingCandidates (s\<lparr>pcRef := Some (setRemoteDescription pc offer)\<rparr>))"

definition on_answer :: "js_string \<Rightarrow> js_string \<Rightarrow> 'd \<Rightarrow> SignalingState \<Rightarrow> bool
    \<Rightarrow> ('c, 'd) WebRTCRefs \<Rightarrow> ('c, 'd) WebRTCRefs" where
  "on_answer myId to answer signalingState accepted s =
     (case pcRef s of
        None \<Rightarrow> s
      | Some pc \<Rightarrow>
          if to \<noteq> myId then s
          else if signalingState = HaveLocalOffer then
            (if \<not> accepted then s
             else addPendingCandidates (s\<lparr>pcRef := Some (setRemoteDescription pc answer)\<rparr>))
          else s)"

text \<open>
  One event, and a sequence of events from a given state.
\<close>

fun step :: "('i \<Rightarrow> 'c option) \<Rightarrow> js_string \<Rightarrow> ('c, 'd) WebRTCRefs \<Rightarrow> ('i, 'd) event
    \<Rightarrow> ('c, 'd) WebRTCRefs" where
  "step mk myId s (IceCandidate to init) = on_ice_candidate mk myId to init s"
| "step mk myId s (Offer to d sig ok) = on_offer myId to d sig ok s"
| "step mk myId s (Answer to d sig ok) = on_answer myId to d sig ok s"
| "step mk myId s (Resume k) = resume k s"

definition run :: "('i \<Rightarrow> 'c option) \<Rightarrow> js_string \<Rightarrow> ('i, 'd) event list \<Rightarrow> ('c, 'd) WebRTCRefs
    \<Rightarrow> ('c, 'd) WebRTCRefs" where
  "run mk myId evs s = foldl (step mk myId) s evs"

text \<open>
  The candidates a sequence of events brings for this peer: those of the ICE envelopes
  addressed to it, in the order of arrival.
\<close>

fun arrival :: "('i \<Rightarrow> 'c option) \<Rightarrow> js_string \<Rightarrow> ('i, 'd) event \<Rightarrow> 'c list" where
  "arrival mk myId (IceCandidate to init) =
     (if to = myId then (case mk init of None \<Rightarrow> [] | Some c \<Rightarrow> [c]) else [])"
| "arrival mk myId _ = []"

definition arrivals :: "('i \<Rightarrow> 'c option) \<Rightarrow> js_string \<Rightarrow> ('i, 'd) event list \<Rightarrow> 'c list" where
  "arrivals mk myId evs = concat (map (arrival mk myId) evs)"

text \<open>
  The candidates handed to \<^verbatim>\<open>addIceCandidate\<close> so far.
\<close>

definition applied :: "('c, 'd) WebRTCRefs \<Rightarrow> 'c list" where
  "applied s = (case pcRef s of None \<Rightarrow> [] | Some pc \<Rightarrow> addIceCalls pc)"

text \<open>
  The references when the handlers are registered: the connection exists, has no remote
  description and no candidate yet, and the buffer is empty.
\<close>

definition connection_created :: "('c, 'd) WebRTCRefs" where
  "connection_created = \<lparr>pcRef = Some \<lparr>remoteDescription = None, addIceCalls = []\<rparr>,
     pendingCandidates = [], draining = []\<rparr>"

text \<open>
  The turns the loop of the first call of \<^verbatim>\<open>addPendingCandidates\<close> is given in a
  sequence of events.
\<close>

definition loop_turns :: "('i, 'd) event list \<Rightarrow> nat" where
  "loop_turns evs = count_list evs (Resume 0)"

text \<open>
  The two phases of the hook. While no remote description is set, every candidate that
  arrived is in the buffer and none has been applied. Afterwards the buffer is empty;
  of the candidates \<open>B\<close> that were buffered, the first \<open>j\<close> have been applied and the
  rest waits in the one loop that took them over, and the candidates \<open>I\<close> that arrived
  later have been applied as they came.
\<close>

definition buffering :: "('c, 'd) WebRTCRefs \<Rightarrow> 'c list \<Rightarrow> bool" where
  "buffering s A \<longleftrightarrow> \<not> hasRemoteDescription s \<and> pcRef s \<noteq> None
     \<and> pendingCandidates s = A \<and> applied s = [] \<and> draining s = []"

definition applying :: "('c, 'd) WebRTCRefs \<Rightarrow> 'c list \<Rightarrow> 'c list \<Rightarrow> nat \<Rightarrow> bool" where
  "applying s B I j \<longleftrightarrow> hasRemoteDescription s \<and> pendingCandidates s = [] \<and> j \<le> length B
     \<and> applied s \<in> shuffles (take j B) I
     \<and> (\<exists>n. draining s = drop j B # replicate n [])"

section \<open>Example scenarios\<close>

text \<open>
  An operation that fails at every attempt, listeners that never throw, and the default
  configuration with three attempts (delay 1000, multiplier 1.5).
\<close>

definition always_rejects :: "nat \<Rightarrow> nat outcome" where
  "always_rejects k = Rejects (Error ''unreachable'')"

definition quiet :: listener_env where
  "quiet l s = None"

definition backoff_config :: ConnectionConfig where
  "backoff_config = DEFAULT_CONFIG\<lparr>maxRetries := 3\<rparr>"

text \<open>
  Power and product where they do not round. For the delay 1000, the multiplier 1.5 and
  the exponents 0 and 1 of the example every exact result (1, 1.5, 1000, 1500) is a
  double, and double arithmetic returns it.
\<close>

definition exact_arithmetic :: float64 where
  "exact_arithmetic = \<lparr>float_mul = (*), Math_pow = (^)\<rparr>"

text \<open>A listener that throws when it is told of the state \<open>Failed\<close>, and only then.\<close>

definition throws_on_failed :: listener_env where
  "throws_on_failed l s = (if s = Failed then Some (Error ''listener failed'') else None)"

text \<open>
  Two subscribers, 1 and 2, subscribed in this order; the callback of subscriber 1
  throws whenever it is called.
\<close>

definition first_throws :: listener_env where
  "first_throws l s = (if l = 1 then Some (Error ''listener failed'') else None)"

definition two_listeners :: ConnectionManager where
  "two_listeners = subscribe 2 (subscribe 1 (newManager DEFAULT_CONFIG))"

text \<open>Three subscribers, of which the second throws whenever it is called.\<close>

definition second_throws :: listener_env where
  "second_throws l s = (if l = 2 then Some (Error ''listener failed'') else None)"

definition three_listeners :: ConnectionManager where
  "three_listeners = subscribe 3 (subscribe 2 (subscribe 1 (newManager DEFAULT_CONFIG)))"

text \<open>
  One video waiter, and two late sessions that both read it as their candidate. The
  table \<open>after_alice\<close> is what the first of them leaves behind.
\<close>

definition waiter :: QueueRow where
  "waiter = \<lparr>row_id = 1, session_id = utf16 ''waiter'', chat_type = Video, matched_with = None,
     matched_at = None, created_at = 100\<rparr>"

definition env_a :: Env where
  "env_a = \<lparr>now = 200, db_now = 200, new_id = 2, updateError = None\<rparr>"

definition env_b :: Env where
  "env_b = \<lparr>now = 201, db_now = 201, new_id = 3, updateError = None\<rparr>"

definition alice :: js_string where "alice = utf16 ''alice''"
definition bob :: js_string where "bob = utf16 ''bob''"
definition carol :: js_string where "carol = utf16 ''carol''"

definition after_alice :: matchmaking_queue where
  "after_alice = fst (POST_claim env_a [waiter] alice Video (Some waiter))"

text \<open>Two text waiters; the older one stands later in the table.\<close>

definition w1 :: QueueRow where
  "w1 = \<lparr>row_id = 1, session_id = utf16 ''w1'', chat_type = Text, matched_with = None,
     matched_at = None, created_at = 0\<rparr>"

definition w2 :: QueueRow where
  "w2 = \<lparr>row_id = 2, session_id = utf16 ''w2'', chat_type = Text, matched_with = None,
     matched_at = None, created_at = 1\<rparr>"

text \<open>
  Three candidates for this peer and one for somebody else; the offer arrives after the
  second, and the third arrives between the two turns of the loop over the buffer.
\<close>

definition me :: js_string where "me = utf16 ''me''"

definition example_events :: "(nat, string) event list" where
  "example_events = [IceCandidate me 1, IceCandidate (utf16 ''other'') 9, IceCandidate me 2]"

definition example_offer :: "(nat, string) event" where
  "example_offer = Offer me ''sdp'' Stable True"

definition example_later :: "(nat, string) event list" where
  "example_later = [IceCandidate me 3, Resume 0]"

chapter \<open>Properties\<close>

section \<open>Room name and initiator election\<close>

text \<open>
  Claim C5. The room name derived from two session ids is the smaller id, the separator
  \<^verbatim>\<open>-\<close>, and the larger id; the channel name is that room name behind a fixed prefix.
  Both are symmetric in the two ids, so each side computes the same name whichever id it
  calls its own.
\<close>

theorem roomId_sorted_symmetric:
  "roomId a b = min a b @ utf16 ''-'' @ max a b
   \<and> roomId a b = roomId b a
   \<and> channelName a b = channelName b a"
proof -
  have shape: "roomId x y = min x y @ utf16 ''-'' @ max x y" for x y
    by (simp add: roomId_def min_def max_def)
  have sym: "roomId x y = roomId y x" for x y
    by (simp add: shape min.commute max.commute)
  show ?thesis
    using shape [of a b] sym [of a b] by (simp add: channelName_def)
qed

text \<open>
  Claim C6. Of two participants with distinct session ids exactly one is the initiator:
  the one whose own id is lexicographically smaller than its partner's. Each side decides
  this from the two ids alone.
\<close>

theorem initiator_unique:
  assumes "a \<noteq> b"
  shows "(isInitiator a b \<longleftrightarrow> \<not> isInitiator b a)
         \<and> (isInitiator a b \<longleftrightarrow> a < b)
         \<and> (isInitiator a b \<longleftrightarrow> min a b = a)"
  using assms by (auto simp: isInitiator_def min_def)

theorem initiator_unique_witness:
  "utf16 ''3fa9'' \<noteq> utf16 ''b07c''
   \<and> isInitiator (utf16 ''3fa9'') (utf16 ''b07c'')
   \<and> \<not> isInitiator (utf16 ''b07c'') (utf16 ''3fa9'')"
proof -
  have ne: "utf16 ''3fa9'' \<noteq> utf16 ''b07c''"
    by (simp add: utf16_def)
  have lt: "utf16 ''3fa9'' < utf16 ''b07c''"
    by (simp add: utf16_def)
  show ?thesis
    using initiator_unique [OF ne] ne lt by blast
qed

section \<open>Notification of listeners\<close>

lemma forEach_notified:
  "snd (forEach L s ls calls) = calls @ map (\<lambda>l. (l, s)) (delivered L s ls)"
  by (induction ls arbitrary: calls) (auto simp: delivered_def split: option.splits)

lemma delivered_all: "\<forall>l\<in>set ls. L l s = None \<Longrightarrow> delivered L s ls = ls"
  by (induction ls) (simp_all add: delivered_def)

lemma forEach_quiet:
  "\<forall>l\<in>set ls. L l s = None \<Longrightarrow> forEach L s ls calls = (None, calls @ map (\<lambda>l. (l, s)) ls)"
  by (induction ls arbitrary: calls) simp_all

lemma forEach_until:
  assumes "\<forall>x\<in>set before. L x s = None" and "L l s = Some e"
  shows "forEach L s (before @ l # rest) calls = (Some e, calls @ map (\<lambda>x. (x, s)) (before @ [l]))"
  using assms by (induction before arbitrary: calls) simp_all

lemma setState_quiet:
  assumes "\<forall>l\<in>set (listeners m). L l s = None"
  shows "fst (setState L s m) = None"
  using assms by (simp add: setState_def notifyListeners_def forEach_quiet)

section \<open>The retry loop\<close>

lemma attempt_fails:
  assumes q: "\<forall>l\<in>set (listeners m). \<forall>s. L l s = None"
    and f: "failure_of (operation (retryCount m)) = Some e"
  shows "attempt L operation m
         = (Inl e, snd (setState L (if retryCount m = 0 then Connecting else Reconnecting) m))"
proof -
  let ?s = "if retryCount m = 0 then Connecting else Reconnecting"
  obtain r m1 where a: "setState L ?s m = (r, m1)" by (cases "setState L ?s m")
  have "fst (setState L ?s m) = None" using q by (intro setState_quiet) simp
  then have r: "r = None" using a by simp
  have rc: "retryCount m1 = retryCount m" using a setState_fields(1) [of L ?s m] by simp
  show ?thesis
    using f unfolding attempt_def a r
    by (auto simp: rc failure_of_def split: outcome.splits)
qed

lemma retry_loop_exhaust:
  assumes q: "\<forall>l\<in>set (listeners m). \<forall>s. L l s = None"
    and cb: "\<forall>f k. onRetry = Some f \<longrightarrow> f k = None"
    and fl: "\<forall>k. failure_of (operation k) \<noteq> None"
  shows "fst (retry_loop F L operation onRetry lastError m)
           = Throws (if int (retryCount m) < maxRetries (config m)
                     then Some (normalise (the (failure_of (operation (nat (maxRetries (config m)) - 1)))))
                     else lastError)
         \<and> state (snd (retry_loop F L operation onRetry lastError m)) = Failed
         \<and> delays (snd (retry_loop F L operation onRetry lastError m))
             = delays m @ map (backoff F (config m)) [Suc (retryCount m) ..< nat (maxRetries (config m))]
         \<and> retried (snd (retry_loop F L operation onRetry lastError m))
             = retried m @ (if onRetry = None then [] else [Suc (retryCount m) ..< nat (maxRetries (config m))])"
  using q
proof (induction "nat (maxRetries (config m) - int (retryCount m))" arbitrary: m lastError)
  case 0
  then have stop: "\<not> int (retryCount m) < maxRetries (config m)" by simp
  have quiet: "fst (setState L Failed m) = None" using "0.prems" by (intro setState_quiet) simp
  obtain r m1 where a: "setState L Failed m = (r, m1)" by (cases "setState L Failed m")
  have m1: "m1 = snd (setState L Failed m)" using a by simp
  have r: "r = None" using quiet a by simp
  have unf: "retry_loop F L operation onRetry lastError m = (Throws lastError, m1)"
    using stop a r by (subst retry_loop.simps) simp
  have "nat (maxRetries (config m)) \<le> Suc (retryCount m)" using stop by simp
  then show ?case using stop unf m1 by simp
next
  case (Suc d)
  then have go: "int (retryCount m) < maxRetries (config m)" by simp
  let ?s = "if retryCount m = 0 then Connecting else Reconnecting"
  obtain e where e: "failure_of (operation (retryCount m)) = Some e" using fl by auto
  define m1 where "m1 = snd (setState L ?s m)"
  have att: "attempt L operation m = (Inl e, m1)"
    using attempt_fails [of m L operation e] Suc.prems e by (simp add: m1_def)
  have m1f: "retryCount m1 = retryCount m" "config m1 = config m" "listeners m1 = listeners m"
    "delays m1 = delays m" "retried m1 = retried m"
    by (simp_all add: m1_def)
  define m2 where "m2 = m1\<lparr>retryCount := Suc (retryCount m1),
      retried := retried m1 @ (if onRetry \<noteq> None \<and> int (Suc (retryCount m1)) < maxRetries (config m1)
                               then [Suc (retryCount m1)] else []),
      delays := delays m1 @ (if int (Suc (retryCount m1)) < maxRetries (config m1)
                             then [backoff F (config m1) (Suc (retryCount m1))] else [])\<rparr>"
  have cbk: "catch_block F onRetry m1 = Inr m2"
    using cb by (auto simp: catch_block_def m2_def Let_def split: option.splits)
  have m2f: "retryCount m2 = Suc (retryCount m)" "config m2 = config m" "listeners m2 = listeners m"
    "delays m2 = delays m @ (if int (Suc (retryCount m)) < maxRetries (config m)
                             then [backoff F (config m) (Suc (retryCount m))] else [])"
    "retried m2 = retried m @ (if onRetry \<noteq> None \<and> int (Suc (retryCount m)) < maxRetries (config m)
                               then [Suc (retryCount m)] else [])"
    by (simp_all add: m2_def m1f)
  have unf: "retry_loop F L operation onRetry lastError m
             = retry_loop F L operation onRetry (Some (normalise e)) m2"
    using go att cbk by (subst retry_loop.simps) simp
  have d: "d = nat (maxRetries (config m2) - int (retryCount m2))"
    using Suc.hyps(2) m2f by simp
  have q2: "\<forall>l\<in>set (listeners m2). \<forall>s. L l s = None" using Suc.prems m2f by simp
  note IH = Suc.hyps(1) [OF d q2, of "Some (normalise e)"]
  show ?case
  proof (cases "int (Suc (retryCount m)) < maxRetries (config m)")
    case False
    have last: "nat (maxRetries (config m)) - 1 = retryCount m" using False go by simp
    have emp: "[Suc (retryCount m) ..< nat (maxRetries (config m))] = []" using False by simp
    have stop2: "\<not> int (retryCount m2) < maxRetries (config m2)" using False m2f by simp
    show ?thesis
      using IH go e False last emp stop2 unfolding unf
      by (simp add: m2f)
  next
    case True
    have lt: "Suc (retryCount m) < nat (maxRetries (config m))" using True by simp
    have up: "[Suc (retryCount m) ..< nat (maxRetries (config m))]
              = Suc (retryCount m) # [Suc (Suc (retryCount m)) ..< nat (maxRetries (config m))]"
      using lt by (simp add: upt_conv_Cons)
    have go2: "int (retryCount m2) < maxRetries (config m2)" using True m2f by simp
    show ?thesis
      using IH go True go2 unfolding unf up
      by (simp add: m2f)
  qed
qed

lemma attempt_success_fields:
  assumes "attempt L operation m = (Inr v, m1)"
  shows "config m1 = config m" "delays m1 = delays m" "retried m1 = retried m"
proof -
  let ?s = "if retryCount m = 0 then Connecting else Reconnecting"
  obtain r ma where a: "setState L ?s m = (r, ma)" by (cases "setState L ?s m")
  obtain r2 mb where b: "setState L Connected ma = (r2, mb)" by (cases "setState L Connected ma")
  have ma: "ma = snd (setState L ?s m)" using a by simp
  have mb: "mb = snd (setState L Connected ma)" using b by simp
  have "m1 = mb\<lparr>retryCount := 0\<rparr>"
    using assms a b unfolding attempt_def
    by (auto split: option.splits outcome.splits if_splits)
  then show "config m1 = config m" "delays m1 = delays m" "retried m1 = retried m"
    using ma mb by auto
qed

lemma catch_block_abort_fields:
  "catch_block F onRetry m1 = Inl (ex, m2) \<Longrightarrow> delays m2 = delays m1 \<and> config m2 = config m1"
  by (auto simp: catch_block_def Let_def split: if_splits option.splits)

lemma catch_block_next_fields:
  "catch_block F onRetry m1 = Inr m2 \<Longrightarrow>
     retryCount m2 = Suc (retryCount m1) \<and> config m2 = config m1
     \<and> delays m2 = delays m1 @ (if int (Suc (retryCount m1)) < maxRetries (config m1)
                                then [backoff F (config m1) (Suc (retryCount m1))] else [])"
  by (auto simp: catch_block_def Let_def split: if_splits option.splits)

lemma retry_loop_delays:
  "\<exists>n\<le>nat (maxRetries (config m)).
     delays (snd (retry_loop F L operation onRetry lastError m))
       = delays m @ map (backoff F (config m)) [Suc (retryCount m) ..< n]"
proof (induction "nat (maxRetries (config m) - int (retryCount m))" arbitrary: m lastError)
  case 0
  then have stop: "\<not> int (retryCount m) < maxRetries (config m)" by simp
  obtain r m1 where a: "setState L Failed m = (r, m1)" by (cases "setState L Failed m")
  have "snd (retry_loop F L operation onRetry lastError m) = m1"
    using stop a by (subst retry_loop.simps) (simp split: option.splits)
  moreover have "delays m1 = delays m" using a setState_fields(5) [of L Failed m] by simp
  ultimately have "delays (snd (retry_loop F L operation onRetry lastError m))
             = delays m @ map (backoff F (config m)) [Suc (retryCount m) ..< 0]"
    by simp
  then show ?case by blast
next
  case (Suc d)
  then have go: "int (retryCount m) < maxRetries (config m)" by simp
  obtain r m1 where att: "attempt L operation m = (r, m1)" by (cases "attempt L operation m")
  show ?case
  proof (cases r)
    case (Inr v)
    have "retry_loop F L operation onRetry lastError m = (Returns v, m1)"
      using go att Inr by (subst retry_loop.simps) simp
    then have "delays (snd (retry_loop F L operation onRetry lastError m))
               = delays m @ map (backoff F (config m)) [Suc (retryCount m) ..< 0]"
      using attempt_success_fields(2) [of L operation m v m1] att Inr by simp
    then show ?thesis by blast
  next
    case (Inl e)
    have m1f: "retryCount m1 = retryCount m" "config m1 = config m" "delays m1 = delays m"
      using attempt_fail_fields(1,2,3) [of L operation m e m1] att Inl by simp_all
    show ?thesis
    proof (cases "catch_block F onRetry m1")
      case (Inl a)
      obtain ex m2 where a: "a = (ex, m2)" by (cases a)
      have "retry_loop F L operation onRetry lastError m = (Throws (Some ex), m2)"
        using go att \<open>r = Inl e\<close> Inl a by (subst retry_loop.simps) simp
      then have "delays (snd (retry_loop F L operation onRetry lastError m))
                 = delays m @ map (backoff F (config m)) [Suc (retryCount m) ..< 0]"
        using catch_block_abort_fields [of F onRetry m1 ex m2] Inl a m1f by simp
      then show ?thesis by blast
    next
      case (Inr m2)
      have unf: "retry_loop F L operation onRetry lastError m
                 = retry_loop F L operation onRetry (Some (normalise e)) m2"
        using go att \<open>r = Inl e\<close> Inr by (subst retry_loop.simps) simp
      have m2f: "retryCount m2 = Suc (retryCount m)" "config m2 = config m"
        "delays m2 = delays m @ (if int (Suc (retryCount m)) < maxRetries (config m)
                                 then [backoff F (config m) (Suc (retryCount m))] else [])"
        using catch_block_next_fields [OF Inr] m1f by simp_all
      have d: "d = nat (maxRetries (config m2) - int (retryCount m2))"
        using Suc.hyps(2) m2f by simp
      obtain n where n: "n \<le> nat (maxRetries (config m))"
        "delays (snd (retry_loop F L operation onRetry (Some (normalise e)) m2))
           = delays m2 @ map (backoff F (config m)) [Suc (Suc (retryCount m)) ..< n]"
        using Suc.hyps(1) [OF d, of "Some (normalise e)"] m2f by auto
      show ?thesis
      proof (cases "int (Suc (retryCount m)) < maxRetries (config m)")
        case True
        let ?n = "max n (Suc (Suc (retryCount m)))"
        have le: "?n \<le> nat (maxRetries (config m))" using n(1) True by simp
        have "[Suc (retryCount m) ..< ?n] = Suc (retryCount m) # [Suc (Suc (retryCount m)) ..< n]"
          by (simp add: upt_conv_Cons max_def)
        then have "delays (snd (retry_loop F L operation onRetry lastError m))
                   = delays m @ map (backoff F (config m)) [Suc (retryCount m) ..< ?n]"
          using n(2) True unfolding unf by (simp add: m2f)
        then show ?thesis using le by blast
      next
        case False
        then have "n \<le> Suc (retryCount m)" using n(1) by simp
        then have "delays (snd (retry_loop F L operation onRetry lastError m))
                   = delays m @ map (backoff F (config m)) [Suc (retryCount m) ..< 0]"
          using n(2) False unfolding unf by (simp add: m2f)
        then show ?thesis by blast
      qed
    qed
  qed
qed

lemma attempt_cannot_resolve:
  assumes "failure_of (operation (retryCount m)) \<noteq> None"
  shows "\<exists>e m1. attempt L operation m = (Inl e, m1)"
proof -
  let ?s = "if retryCount m = 0 then Connecting else Reconnecting"
  obtain r m1 where a: "setState L ?s m = (r, m1)" by (cases "setState L ?s m")
  have rc: "retryCount m1 = retryCount m" using a setState_fields(1) [of L ?s m] by simp
  show ?thesis
    using assms unfolding attempt_def a
    by (auto simp: rc failure_of_def split: option.splits outcome.splits)
qed

lemma catch_block_continues:
  assumes "\<forall>f k. onRetry = Some f \<longrightarrow> f k = None"
  shows "\<exists>m2. catch_block F onRetry m1 = Inr m2"
  using assms by (auto simp: catch_block_def Let_def split: option.splits)

lemma retry_loop_exhaust_any:
  assumes cb: "\<forall>f k. onRetry = Some f \<longrightarrow> f k = None"
    and fl: "\<forall>k. failure_of (operation k) \<noteq> None"
  shows "(\<exists>x. fst (retry_loop F L operation onRetry lastError m) = Throws x)
         \<and> state (snd (retry_loop F L operation onRetry lastError m)) = Failed
         \<and> delays (snd (retry_loop F L operation onRetry lastError m))
             = delays m @ map (backoff F (config m)) [Suc (retryCount m) ..< nat (maxRetries (config m))]"
proof (induction "nat (maxRetries (config m) - int (retryCount m))" arbitrary: m lastError)
  case 0
  then have stop: "\<not> int (retryCount m) < maxRetries (config m)" by simp
  obtain r m1 where a: "setState L Failed m = (r, m1)" by (cases "setState L Failed m")
  have m1: "m1 = snd (setState L Failed m)" using a by simp
  have unf: "retry_loop F L operation onRetry lastError m
             = (Throws (case r of None \<Rightarrow> lastError | Some ex \<Rightarrow> Some ex), m1)"
    using stop a by (subst retry_loop.simps) (simp split: option.splits)
  have emp: "[Suc (retryCount m) ..< nat (maxRetries (config m))] = []" using stop by simp
  show ?case unfolding unf emp by (simp add: m1)
next
  case (Suc d)
  then have go: "int (retryCount m) < maxRetries (config m)" by simp
  obtain e m1 where att: "attempt L operation m = (Inl e, m1)"
    using attempt_cannot_resolve [of operation m L] fl by blast
  have m1f: "retryCount m1 = retryCount m" "config m1 = config m" "delays m1 = delays m"
    using attempt_fail_fields(1,2,3) [OF att] by simp_all
  obtain m2 where cbk: "catch_block F onRetry m1 = Inr m2"
    using catch_block_continues [OF cb] by blast
  have m2f: "retryCount m2 = Suc (retryCount m)" "config m2 = config m"
    "delays m2 = delays m @ (if int (Suc (retryCount m)) < maxRetries (config m)
                             then [backoff F (config m) (Suc (retryCount m))] else [])"
    using catch_block_next_fields [OF cbk] m1f by simp_all
  have unf: "retry_loop F L operation onRetry lastError m
             = retry_loop F L operation onRetry (Some (normalise e)) m2"
    using go att cbk by (subst retry_loop.simps) simp
  have d: "d = nat (maxRetries (config m2) - int (retryCount m2))"
    using Suc.hyps(2) m2f by simp
  note IH = Suc.hyps(1) [OF d, of "Some (normalise e)"]
  show ?case
  proof (cases "int (Suc (retryCount m)) < maxRetries (config m)")
    case False
    have emp: "[Suc (retryCount m) ..< nat (maxRetries (config m))] = []"
      "[Suc (Suc (retryCount m)) ..< nat (maxRetries (config m))] = []"
      using False by simp_all
    show ?thesis
      using IH False emp unfolding unf by (simp add: m2f)
  next
    case True
    have lt: "Suc (retryCount m) < nat (maxRetries (config m))" using True by simp
    have up: "[Suc (retryCount m) ..< nat (maxRetries (config m))]
              = Suc (retryCount m) # [Suc (Suc (retryCount m)) ..< nat (maxRetries (config m))]"
      using lt by (simp add: upt_conv_Cons)
    show ?thesis
      using IH True unfolding unf up by (simp add: m2f)
  qed
qed

text \<open>The runs of the examples: three attempts, two waits.\<close>

lemma retry_three_attempts:
  "retry exact_arithmetic quiet always_rejects None (newManager backoff_config)
   = (Throws (Some (Error ''unreachable'')),
      (newManager backoff_config)\<lparr>state := Failed, retryCount := 3, delays := [1000, 1500]\<rparr>)"
  by (simp add: retry_def retry_loop.simps attempt_def setState_def notifyListeners_def
      catch_block_def backoff_def newManager_def backoff_config_def DEFAULT_CONFIG_def
      always_rejects_def quiet_def normalise_def exact_arithmetic_def Let_def)

lemma retry_listener_throws_on_failed:
  "fst (retry exact_arithmetic throws_on_failed always_rejects None
          (subscribe 1 (newManager backoff_config)))
   = Throws (Some (Error ''listener failed''))"
  by (simp add: retry_def retry_loop.simps attempt_def setState_def notifyListeners_def
      catch_block_def backoff_def newManager_def backoff_config_def DEFAULT_CONFIG_def
      always_rejects_def throws_on_failed_def normalise_def exact_arithmetic_def subscribe_def
      Let_def)

text \<open>
  Claim C8, as the code has it. In every run of \<^verbatim>\<open>retry\<close> the waits scheduled
  between attempts are, in order, what the platform computes for
  \<^verbatim>\<open>retryDelay * Math.pow(retryBackoffMultiplier, k - 1)\<close> for \<open>k = 1, 2, ...\<close>: the
  wait that follows the \<open>k\<close>-th failed attempt, which exists only while
  \<open>k < maxRetries\<close>. Where the platform's power and product do not round, this is
  \<open>retryDelay * retryBackoffMultiplier ^ (k - 1)\<close>. If the operation fails at every
  attempt and \<^verbatim>\<open>onRetry\<close> does not throw, there are \<open>maxRetries\<close> attempts and
  \<open>maxRetries - 1\<close> waits, the manager ends in state \<open>Failed\<close>, and \<^verbatim>\<open>retry\<close>
  throws; if moreover no listener throws, it throws the error of the last attempt
  (\<^verbatim>\<open>null\<close> if no attempt was allowed). With a delay of 1000, a multiplier of 1.5 and
  three attempts the waits are 1000 and 1500; a wait of 2250 needs a fourth attempt.
\<close>

theorem retry_backoff_schedule:
  "(\<exists>n\<le>nat (maxRetries (config m)).
      delays (snd (retry F L operation onRetry m))
        = delays m @ map (\<lambda>k. float_mul F (retryDelay (config m))
                                 (Math_pow F (retryBackoffMultiplier (config m)) (k - 1))) [1 ..< n]
      \<and> ((\<forall>k. Math_pow F (retryBackoffMultiplier (config m)) k = retryBackoffMultiplier (config m) ^ k
               \<and> float_mul F (retryDelay (config m)) (retryBackoffMultiplier (config m) ^ k)
                   = retryDelay (config m) * retryBackoffMultiplier (config m) ^ k) \<longrightarrow>
          delays (snd (retry F L operation onRetry m))
            = delays m @ map (\<lambda>k. retryDelay (config m) * retryBackoffMultiplier (config m) ^ (k - 1))
                           [1 ..< n]))
   \<and> ((\<forall>f k. onRetry = Some f \<longrightarrow> f k = None) \<longrightarrow>
      (\<forall>k. failure_of (operation k) \<noteq> None) \<longrightarrow>
        delays (snd (retry F L operation onRetry m))
          = delays m @ map (\<lambda>k. float_mul F (retryDelay (config m))
                                   (Math_pow F (retryBackoffMultiplier (config m)) (k - 1)))
                         [1 ..< nat (maxRetries (config m))]
        \<and> state (snd (retry F L operation onRetry m)) = Failed
        \<and> (\<exists>x. fst (retry F L operation onRetry m) = Throws x)
        \<and> ((\<forall>l\<in>set (listeners m). \<forall>s. L l s = None) \<longrightarrow>
              fst (retry F L operation onRetry m)
                = Throws (if 0 < maxRetries (config m)
                          then Some (normalise (the (failure_of
                                 (operation (nat (maxRetries (config m)) - 1)))))
                          else None)))"
proof -
  let ?m0 = "m\<lparr>retryCount := 0\<rparr>"
  let ?d = "retryDelay (config m)"
  let ?b = "retryBackoffMultiplier (config m)"
  have bk: "backoff F (config m) = (\<lambda>k. float_mul F ?d (Math_pow F ?b (k - 1)))"
    by (rule ext) (simp add: backoff_def)
  obtain n where n: "n \<le> nat (maxRetries (config m))"
    "delays (snd (retry F L operation onRetry m)) = delays m @ map (backoff F (config m)) [1 ..< n]"
    using retry_loop_delays [where m = ?m0 and F = F and L = L and operation = operation
        and onRetry = onRetry and lastError = None]
    by (auto simp: retry_def)
  have exact: "delays (snd (retry F L operation onRetry m))
            = delays m @ map (\<lambda>k. ?d * ?b ^ (k - 1)) [1 ..< n]"
    if "\<forall>k. Math_pow F ?b k = ?b ^ k \<and> float_mul F ?d (?b ^ k) = ?d * ?b ^ k"
    using that n(2) by (simp add: backoff_def)
  have gen: "\<exists>n\<le>nat (maxRetries (config m)).
      delays (snd (retry F L operation onRetry m))
        = delays m @ map (\<lambda>k. float_mul F ?d (Math_pow F ?b (k - 1))) [1 ..< n]
      \<and> ((\<forall>k. Math_pow F ?b k = ?b ^ k \<and> float_mul F ?d (?b ^ k) = ?d * ?b ^ k) \<longrightarrow>
          delays (snd (retry F L operation onRetry m))
            = delays m @ map (\<lambda>k. ?d * ?b ^ (k - 1)) [1 ..< n])"
    using n exact unfolding bk by blast
  have exh: "delays (snd (retry F L operation onRetry m))
          = delays m @ map (\<lambda>k. float_mul F ?d (Math_pow F ?b (k - 1)))
                         [1 ..< nat (maxRetries (config m))]
        \<and> state (snd (retry F L operation onRetry m)) = Failed
        \<and> (\<exists>x. fst (retry F L operation onRetry m) = Throws x)"
    if "\<forall>f k. onRetry = Some f \<longrightarrow> f k = None" "\<forall>k. failure_of (operation k) \<noteq> None"
    using retry_loop_exhaust_any [OF that, where m = ?m0 and F = F and L = L and lastError = None]
    unfolding bk [symmetric] by (simp add: retry_def)
  have last: "fst (retry F L operation onRetry m)
            = Throws (if 0 < maxRetries (config m)
                      then Some (normalise (the (failure_of (operation (nat (maxRetries (config m)) - 1)))))
                      else None)"
    if "\<forall>f k. onRetry = Some f \<longrightarrow> f k = None" "\<forall>k. failure_of (operation k) \<noteq> None"
       "\<forall>l\<in>set (listeners m). \<forall>s. L l s = None"
    using retry_loop_exhaust [where m = ?m0 and F = F and L = L and onRetry = onRetry
        and operation = operation and lastError = None] that
    by (simp add: retry_def)
  show ?thesis
    using gen exh last by (intro conjI impI) blast+
qed

theorem retry_backoff_schedule_witness:
  "delays (snd (retry exact_arithmetic quiet always_rejects None (subscribe 1 (newManager backoff_config))))
     = [1000, 1500]
   \<and> state (snd (retry exact_arithmetic quiet always_rejects None
               (subscribe 1 (newManager backoff_config)))) = Failed
   \<and> fst (retry exact_arithmetic quiet always_rejects None (subscribe 1 (newManager backoff_config)))
       = Throws (Some (Error ''unreachable''))"
proof -
  let ?m = "subscribe 1 (newManager backoff_config)"
  have q: "\<forall>l\<in>set (listeners ?m). \<forall>s. quiet l s = None"
    by (simp add: quiet_def)
  have cb: "\<forall>f k. (None :: (nat \<Rightarrow> thrown option) option) = Some f \<longrightarrow> f k = None"
    by simp
  have fl: "\<forall>k. failure_of (always_rejects k) \<noteq> None"
    by (simp add: failure_of_def always_rejects_def)
  have cfg: "config ?m = backoff_config" "delays ?m = []"
    by (simp_all add: subscribe_def newManager_def)
  have up: "[1 ..< nat 3] = [1, 2]"
    by (simp add: numeral_3_eq_3 upt_conv_Cons)
  have vals: "maxRetries backoff_config = 3" "retryDelay backoff_config = 1000"
    "retryBackoffMultiplier backoff_config = 3 / 2"
    by (simp_all add: backoff_config_def DEFAULT_CONFIG_def)
  have last: "the (failure_of (always_rejects (nat 3 - 1))) = Error ''unreachable''"
    by (simp add: failure_of_def always_rejects_def)
  have "delays (snd (retry exact_arithmetic quiet always_rejects None ?m))
          = delays ?m @ map (\<lambda>k. float_mul exact_arithmetic (retryDelay (config ?m))
                (Math_pow exact_arithmetic (retryBackoffMultiplier (config ?m)) (k - 1)))
                         [1 ..< nat (maxRetries (config ?m))]
        \<and> state (snd (retry exact_arithmetic quiet always_rejects None ?m)) = Failed
        \<and> fst (retry exact_arithmetic quiet always_rejects None ?m)
            = Throws (if 0 < maxRetries (config ?m)
                      then Some (normalise (the (failure_of (always_rejects (nat (maxRetries (config ?m)) - 1)))))
                      else None)"
    using retry_backoff_schedule [where m = ?m and F = exact_arithmetic and L = quiet
        and operation = always_rejects and onRetry = None] q cb fl
    by blast
  then show ?thesis
    unfolding cfg vals up last by (simp add: normalise_def exact_arithmetic_def)
qed

text \<open>
  With three attempts allowed the run schedules two waits, not three: the third failure
  exhausts the attempts and nothing waits 2250. And with a listener that throws when it
  is told of the state \<open>Failed\<close>, \<^verbatim>\<open>retry\<close> throws that listener's exception and not
  the error of the last attempt.
\<close>

theorem retry_three_delays_counterexample:
  "maxRetries backoff_config = 3
   \<and> retryDelay backoff_config = 1000
   \<and> retryBackoffMultiplier backoff_config = 3 / 2
   \<and> delays (snd (retry exact_arithmetic quiet always_rejects None (newManager backoff_config)))
       = [1000, 1500]
   \<and> delays (snd (retry exact_arithmetic quiet always_rejects None (newManager backoff_config)))
       \<noteq> [1000, 1500, 2250]
   \<and> fst (retry exact_arithmetic throws_on_failed always_rejects None
            (subscribe 1 (newManager backoff_config)))
       = Throws (Some (Error ''listener failed''))
   \<and> fst (retry exact_arithmetic throws_on_failed always_rejects None
            (subscribe 1 (newManager backoff_config)))
       \<noteq> Throws (Some (Error ''unreachable''))"
proof -
  have vals: "maxRetries backoff_config = 3" "retryDelay backoff_config = 1000"
    "retryBackoffMultiplier backoff_config = 3 / 2"
    by (simp_all add: backoff_config_def DEFAULT_CONFIG_def)
  have run: "delays (snd (retry exact_arithmetic quiet always_rejects None (newManager backoff_config)))
      = [1000, 1500]"
    by (simp add: retry_three_attempts)
  show ?thesis
    unfolding run retry_listener_throws_on_failed using vals by simp
qed

section \<open>Delivery of state changes\<close>

lemma setState_changed:
  "state m \<noteq> s \<Longrightarrow>
     snd (setState L s m)
       = m\<lparr>state := s, notified := notified m @ map (\<lambda>l. (l, s)) (delivered L s (listeners m))\<rparr>"
  using forEach_notified [of L s "listeners m" "notified m"]
  by (cases "forEach L s (listeners m) (notified m)") (simp add: setState_def notifyListeners_def)

lemma delivered_subset: "set (delivered L s ls) \<subseteq> set ls"
proof -
  have "set (takeWhile (\<lambda>l. L l s = None) ls) \<subseteq> set ls"
    by (auto dest: set_takeWhileD)
  moreover have "set (take 1 (dropWhile (\<lambda>l. L l s = None) ls)) \<subseteq> set ls"
    by (auto dest!: in_set_takeD set_dropWhileD)
  ultimately show ?thesis by (simp add: delivered_def)
qed

lemma distinct_delivered: "distinct ls \<Longrightarrow> distinct (delivered L s ls)"
proof (induction ls)
  case Nil
  then show ?case by (simp add: delivered_def)
next
  case (Cons a ls)
  have sub: "set (delivered L s ls) \<subseteq> set ls"
    by (rule delivered_subset)
  show ?case
  proof (cases "L a s")
    case None
    then have "delivered L s (a # ls) = a # delivered L s ls" by (simp add: delivered_def)
    then show ?thesis using Cons sub by auto
  next
    case (Some e)
    then have "delivered L s (a # ls) = [a]" by (simp add: delivered_def)
    then show ?thesis by simp
  qed
qed

text \<open>
  Claim C9, as the code has it. A state change is delivered to the listeners in the
  order of their subscription. If no listener throws, every listener receives it. If a
  listener throws, the listeners subscribed before it and that listener have received
  it, none of the listeners subscribed after it receives it, and the exception leaves
  \<^verbatim>\<open>setState\<close>.
\<close>

theorem notification_stops_at_first_throw:
  assumes "state m \<noteq> s"
  shows "((\<forall>x\<in>set (listeners m). L x s = None) \<longrightarrow>
            fst (setState L s m) = None
            \<and> notified (snd (setState L s m)) = notified m @ map (\<lambda>x. (x, s)) (listeners m))
         \<and> (listeners m = before @ l # rest \<longrightarrow> (\<forall>x\<in>set before. L x s = None) \<longrightarrow>
            L l s = Some e \<longrightarrow>
            fst (setState L s m) = Some e
            \<and> notified (snd (setState L s m)) = notified m @ map (\<lambda>x. (x, s)) (before @ [l]))"
proof (intro conjI impI)
  assume q: "\<forall>x\<in>set (listeners m). L x s = None"
  show "fst (setState L s m) = None"
    using q by (rule setState_quiet)
  show "notified (snd (setState L s m)) = notified m @ map (\<lambda>x. (x, s)) (listeners m)"
    using assms q by (simp add: setState_changed delivered_all)
next
  assume sp: "listeners m = before @ l # rest" and b: "\<forall>x\<in>set before. L x s = None"
    and t: "L l s = Some e"
  have fe: "forEach L s (listeners m) (notified m)
            = (Some e, notified m @ map (\<lambda>x. (x, s)) (before @ [l]))"
    unfolding sp using b t by (rule forEach_until)
  show "fst (setState L s m) = Some e"
    using assms fe by (simp add: setState_def notifyListeners_def)
  show "notified (snd (setState L s m)) = notified m @ map (\<lambda>x. (x, s)) (before @ [l])"
    using assms fe by (simp add: setState_def notifyListeners_def)
qed

theorem notification_stops_at_first_throw_witness:
  "state two_listeners \<noteq> Connecting
   \<and> listeners two_listeners = [] @ 1 # [2]
   \<and> first_throws 1 Connecting = Some (Error ''listener failed'')
   \<and> fst (setState first_throws Connecting two_listeners) = Some (Error ''listener failed'')
   \<and> notified (snd (setState first_throws Connecting two_listeners)) = [(1, Connecting)]
   \<and> notified (snd (setState quiet Connecting two_listeners)) = [(1, Connecting), (2, Connecting)]"
proof -
  have st: "state two_listeners \<noteq> Connecting"
    by (simp add: two_listeners_def subscribe_def newManager_def)
  have ls: "listeners two_listeners = [] @ 1 # [2]"
    by (simp add: two_listeners_def subscribe_def newManager_def)
  have t: "first_throws 1 Connecting = Some (Error ''listener failed'')"
    by (simp add: first_throws_def)
  have q: "\<forall>x\<in>set (listeners two_listeners). quiet x Connecting = None"
    by (simp add: quiet_def)
  have n0: "notified two_listeners = []"
    by (simp add: two_listeners_def subscribe_def newManager_def)
  show ?thesis
    using notification_stops_at_first_throw [OF st, of first_throws "[]" 1 "[2]" "Error ''listener failed''"]
      notification_stops_at_first_throw [OF st, of quiet] st ls t q n0
    by simp
qed

text \<open>
  Subscriber 2 is subscribed and the state changes, yet subscriber 2 is not notified,
  because the callback of subscriber 1 threw.
\<close>

theorem listener_exception_counterexample:
  "2 \<in> set (listeners two_listeners)
   \<and> state two_listeners \<noteq> Connecting
   \<and> state (snd (setState first_throws Connecting two_listeners)) = Connecting
   \<and> (2, Connecting) \<notin> set (notified (snd (setState first_throws Connecting two_listeners)))"
  by (simp add: two_listeners_def subscribe_def newManager_def setState_def notifyListeners_def
      first_throws_def)

lemma delivered_split:
  "\<exists>rest. ls = delivered L s ls @ rest
     \<and> (\<forall>l\<in>set (butlast (delivered L s ls)). L l s = None)
     \<and> (rest \<noteq> [] \<longrightarrow> delivered L s ls \<noteq> [] \<and> L (last (delivered L s ls)) s \<noteq> None)"
proof (cases "dropWhile (\<lambda>l. L l s = None) ls")
  case Nil
  then have all: "\<forall>l\<in>set ls. L l s = None" by simp
  then have "delivered L s ls = ls" by (rule delivered_all)
  moreover have "\<forall>l\<in>set (butlast ls). L l s = None"
    using all by (auto dest: in_set_butlastD)
  ultimately show ?thesis by simp
next
  case (Cons d ds)
  let ?pre = "takeWhile (\<lambda>l. L l s = None) ls"
  have dl: "delivered L s ls = ?pre @ [d]" using Cons by (simp add: delivered_def)
  have "ls = ?pre @ dropWhile (\<lambda>l. L l s = None) ls" by simp
  then have sp: "ls = delivered L s ls @ ds" using Cons dl by simp
  have q: "\<forall>l\<in>set ?pre. L l s = None" by (auto dest: set_takeWhileD)
  have "\<not> (L d s = None)"
    using hd_dropWhile [of "\<lambda>l. L l s = None" ls] Cons by simp
  then show ?thesis
    using sp q unfolding dl by (intro exI [of _ ds]) simp
qed

lemma count_notifications:
  "distinct xs \<Longrightarrow> count_list (map (\<lambda>l. (l, s)) xs) (x, s) = (if x \<in> set xs then 1 else 0)"
  by (induction xs) auto

text \<open>
  Claim C10, as the code has it. \<^verbatim>\<open>setState(s)\<close> on a manager whose state is already
  \<open>s\<close> changes nothing and calls no listener; in particular a second \<^verbatim>\<open>setState(s)\<close>
  right after a first one is silent. When the state does change, the subscribers fall
  into a first part and a rest: every subscriber of the first part is notified exactly
  once and every subscriber of the rest not at all. The rest is empty unless the last
  subscriber of the first part throws; nobody before that one throws. So no subscriber is
  ever notified twice, and all are notified once if no listener throws.
\<close>

theorem setState_notifies_once_per_change:
  "(state m = s \<longrightarrow> setState L s m = (None, m))
   \<and> setState L s (snd (setState L s m)) = (None, snd (setState L s m))
   \<and> (state m \<noteq> s \<longrightarrow> distinct (listeners m) \<longrightarrow>
        state (snd (setState L s m)) = s
        \<and> (\<exists>new rest. listeners m = new @ rest
              \<and> notified (snd (setState L s m)) = notified m @ map (\<lambda>l. (l, s)) new
              \<and> (\<forall>l\<in>set new. count_list (map (\<lambda>l. (l, s)) new) (l, s) = 1)
              \<and> (\<forall>l\<in>set rest. count_list (map (\<lambda>l. (l, s)) new) (l, s) = 0)
              \<and> (\<forall>l\<in>set (butlast new). L l s = None)
              \<and> (rest \<noteq> [] \<longrightarrow> new \<noteq> [] \<and> L (last new) s \<noteq> None)
              \<and> ((\<forall>l\<in>set (listeners m). L l s = None) \<longrightarrow> new = listeners m)))"
proof (intro conjI impI)
  assume "state m = s"
  then show "setState L s m = (None, m)" by (simp add: setState_def)
next
  have "state (snd (setState L s m)) = s" by simp
  then show "setState L s (snd (setState L s m)) = (None, snd (setState L s m))"
    by (simp add: setState_def [of L s "snd (setState L s m)"])
next
  show "state (snd (setState L s m)) = s" by simp
next
  assume ch: "state m \<noteq> s" and d: "distinct (listeners m)"
  let ?new = "delivered L s (listeners m)"
  obtain rest where rest: "listeners m = ?new @ rest"
    "\<forall>l\<in>set (butlast ?new). L l s = None"
    "rest \<noteq> [] \<longrightarrow> ?new \<noteq> [] \<and> L (last ?new) s \<noteq> None"
    using delivered_split [of "listeners m" L s] by blast
  have dn: "distinct ?new" and disj: "set ?new \<inter> set rest = {}"
    using d rest(1) distinct_append [of ?new rest] by simp_all
  have n: "notified (snd (setState L s m)) = notified m @ map (\<lambda>l. (l, s)) ?new"
    using ch by (simp add: setState_changed)
  have once: "\<forall>l\<in>set ?new. count_list (map (\<lambda>l. (l, s)) ?new) (l, s) = 1"
    using dn by (simp add: count_notifications)
  have never: "\<forall>l\<in>set rest. count_list (map (\<lambda>l. (l, s)) ?new) (l, s) = 0"
    using dn disj by (auto simp: count_notifications)
  have all: "(\<forall>l\<in>set (listeners m). L l s = None) \<longrightarrow> ?new = listeners m"
    by (simp add: delivered_all)
  show "\<exists>new rest. listeners m = new @ rest
      \<and> notified (snd (setState L s m)) = notified m @ map (\<lambda>l. (l, s)) new
      \<and> (\<forall>l\<in>set new. count_list (map (\<lambda>l. (l, s)) new) (l, s) = 1)
      \<and> (\<forall>l\<in>set rest. count_list (map (\<lambda>l. (l, s)) new) (l, s) = 0)
      \<and> (\<forall>l\<in>set (butlast new). L l s = None)
      \<and> (rest \<noteq> [] \<longrightarrow> new \<noteq> [] \<and> L (last new) s \<noteq> None)
      \<and> ((\<forall>l\<in>set (listeners m). L l s = None) \<longrightarrow> new = listeners m)"
    using rest n once never all
    by (intro exI [of _ ?new] exI [of _ rest] conjI)
qed

theorem setState_notifies_once_per_change_witness:
  "state (snd (setState quiet Connecting two_listeners)) = Connecting
   \<and> setState quiet Connecting (snd (setState quiet Connecting two_listeners))
       = (None, snd (setState quiet Connecting two_listeners))
   \<and> notified (snd (setState quiet Connecting (snd (setState quiet Connecting two_listeners))))
       = [(1, Connecting), (2, Connecting)]
   \<and> setState quiet Idle two_listeners = (None, two_listeners)"
proof -
  have st: "state two_listeners = Idle" "state two_listeners \<noteq> Connecting"
    by (simp_all add: two_listeners_def subscribe_def newManager_def)
  have ls: "listeners two_listeners = [1, 2]" "notified two_listeners = []"
    by (simp_all add: two_listeners_def subscribe_def newManager_def)
  have q: "\<forall>l\<in>set (listeners two_listeners). quiet l Connecting = None"
    by (simp add: quiet_def)
  have d: "distinct (listeners two_listeners)"
    by (simp add: ls)
  have a: "setState quiet Idle two_listeners = (None, two_listeners)"
    using setState_notifies_once_per_change [of two_listeners Idle quiet] st(1) by blast
  have b: "setState quiet Connecting (snd (setState quiet Connecting two_listeners))
       = (None, snd (setState quiet Connecting two_listeners))"
    using setState_notifies_once_per_change [of two_listeners Connecting quiet] by blast
  obtain new where new: "notified (snd (setState quiet Connecting two_listeners))
       = notified two_listeners @ map (\<lambda>l. (l, Connecting)) new"
    "(\<forall>l\<in>set (listeners two_listeners). quiet l Connecting = None) \<longrightarrow> new = listeners two_listeners"
    using setState_notifies_once_per_change [of two_listeners Connecting quiet] st(2) d by blast
  have c: "notified (snd (setState quiet Connecting two_listeners))
       = notified two_listeners @ map (\<lambda>l. (l, Connecting)) (listeners two_listeners)"
    using new q by simp
  show ?thesis
    using a b c by (simp add: ls)
qed

text \<open>
  Three subscribers; the callback of the second throws. The state changes, the first
  subscriber is notified once, and the third, though subscribed, is not notified at all.
\<close>

theorem state_change_skips_subscriber_counterexample:
  "3 \<in> set (listeners three_listeners)
   \<and> state three_listeners \<noteq> Connected
   \<and> state (snd (setState second_throws Connected three_listeners)) = Connected
   \<and> count_list (notified (snd (setState second_throws Connected three_listeners))) (1, Connected) = 1
   \<and> count_list (notified (snd (setState second_throws Connected three_listeners))) (3, Connected) = 0"
  by (simp add: three_listeners_def subscribe_def newManager_def setState_def notifyListeners_def
      second_throws_def)

section \<open>One queue entry for each session\<close>

lemma session_ids_update_claim [simp]: "map session_id (update_claim q pid sid t) = map session_id q"
  by (induction q) (simp_all add: update_claim_def)

lemma session_ids_upsert:
  "map session_id (upsert env q sid ct mw mt)
   = (if sid \<in> session_id ` set q then map session_id q else map session_id q @ [sid])"
proof -
  have "map session_id (map (\<lambda>r. if session_id r = sid
          then r\<lparr>chat_type := ct, matched_with := mw, matched_at := mt\<rparr> else r) q) = map session_id q"
    by (induction q) simp_all
  then show ?thesis by (auto simp: upsert_def)
qed

lemma one_per_session_update_claim: "one_per_session q \<Longrightarrow> one_per_session (update_claim q pid sid t)"
  by (simp add: one_per_session_def)

lemma one_per_session_upsert: "one_per_session q \<Longrightarrow> one_per_session (upsert env q sid ct mw mt)"
  by (simp add: one_per_session_def session_ids_upsert)

lemma one_per_session_delete: "one_per_session q \<Longrightarrow> one_per_session (delete_by_session q sid)"
  by (simp add: one_per_session_def delete_by_session_def distinct_map_filter)

lemma one_per_session_POST_claim:
  "one_per_session q \<Longrightarrow> one_per_session (fst (POST_claim env q sid ct pm))"
  by (auto simp: POST_claim_def update_matched_with_def one_per_session_upsert
      one_per_session_update_claim split: option.splits)

lemma one_per_session_POST: "one_per_session q \<Longrightarrow> one_per_session (fst (POST env q req))"
  by (auto simp: POST_def one_per_session_POST_claim split: option.splits)

lemma one_per_session_GET: "one_per_session q \<Longrightarrow> one_per_session (fst (GET q p))"
  by (auto simp: GET_def split: option.splits)

lemma one_per_session_DELETE: "one_per_session q \<Longrightarrow> one_per_session (fst (DELETE q p))"
  by (auto simp: DELETE_def one_per_session_delete split: option.splits)

lemma entries_of_count:
  "one_per_session q \<Longrightarrow> length (entries_of q sid) = (if sid \<in> session_id ` set q then 1 else 0)"
proof (induction q)
  case Nil
  then show ?case by (simp add: entries_of_def)
next
  case (Cons r q)
  then show ?case by (auto simp: entries_of_def one_per_session_def)
qed

lemma upsert_has_session: "sid \<in> session_id ` set (upsert env q sid ct mw mt)"
proof -
  have "sid \<in> set (map session_id (upsert env q sid ct mw mt))"
    unfolding session_ids_upsert by simp
  then show ?thesis by simp
qed

lemma POST_claim_has_session: "sid \<in> session_id ` set (fst (POST_claim env q sid ct pm))"
  by (auto simp: POST_claim_def update_matched_with_def upsert_has_session split: option.splits)

lemma maybeSingle_Some: "maybeSingle xs = Some x \<Longrightarrow> xs = [x]"
  by (cases xs rule: maybeSingle.cases) simp_all

lemma select_by_session_Some:
  "select_by_session q sid = Some e \<Longrightarrow> e \<in> set q \<and> session_id e = sid"
proof -
  assume "select_by_session q sid = Some e"
  then have "filter (\<lambda>r. session_id r = sid) q = [e]"
    unfolding select_by_session_def by (rule maybeSingle_Some)
  then have "e \<in> set (filter (\<lambda>r. session_id r = sid) q)" by simp
  then show ?thesis by simp
qed

lemma POST_has_session:
  assumes "sessionId body \<noteq> []" "chatType body \<noteq> None"
  shows "sessionId body \<in> session_id ` set (fst (POST env q (Some body)))"
proof (cases "select_by_session q (sessionId body)")
  case None
  then show ?thesis using assms by (auto simp: POST_def POST_claim_has_session)
next
  case (Some e)
  then have "e \<in> set q" "session_id e = sessionId body"
    using select_by_session_Some by auto
  then have "sessionId body \<in> session_id ` set q" by force
  then show ?thesis using assms Some by (auto simp: POST_def POST_claim_has_session)
qed

lemma POST_repeat_one_per_session:
  "one_per_session q \<Longrightarrow> one_per_session (POST_repeat envs q body)"
  by (induction envs arbitrary: q) (simp_all add: one_per_session_POST)

lemma POST_repeat_has_session:
  assumes "sessionId body \<noteq> []" "chatType body \<noteq> None" "envs \<noteq> []"
  shows "sessionId body \<in> session_id ` set (POST_repeat envs q body)"
  using assms(3)
proof (induction envs arbitrary: q rule: rev_induct)
  case Nil
  then show ?case by simp
next
  case (snoc env envs)
  have step: "POST_repeat (envs @ [env]) q body = fst (POST env (POST_repeat envs q body) (Some body))"
    for q
    by (induction envs arbitrary: q) simp_all
  show ?case unfolding step using assms(1,2) by (rule POST_has_session)
qed

text \<open>
  Claim C3. If the queue holds at most one entry for each session id, it still does
  after a POST, a GET or a DELETE, and after the claim step of a POST run on a table
  that other requests have changed in between. After one or more POST requests in a row
  for the same session, with a session id and a chat type, the queue holds exactly one
  entry for that session.
\<close>

theorem one_entry_per_session:
  assumes "one_per_session q"
  shows "one_per_session (fst (POST env q req))
         \<and> one_per_session (fst (GET q param))
         \<and> one_per_session (fst (DELETE q param))
         \<and> one_per_session (fst (POST_claim env q sid ct pm))
         \<and> (envs \<noteq> [] \<longrightarrow> sessionId body \<noteq> [] \<longrightarrow> chatType body \<noteq> None \<longrightarrow>
              length (entries_of (POST_repeat envs q body) (sessionId body)) = 1)"
proof -
  have "length (entries_of (POST_repeat envs q body) (sessionId body)) = 1"
    if "envs \<noteq> []" "sessionId body \<noteq> []" "chatType body \<noteq> None"
    using entries_of_count [OF POST_repeat_one_per_session [OF assms], of envs body "sessionId body"]
      POST_repeat_has_session [OF that(2,3,1), of q]
    by simp
  then show ?thesis
    using assms one_per_session_POST one_per_session_GET one_per_session_DELETE
      one_per_session_POST_claim by blast
qed

theorem one_entry_per_session_witness:
  "one_per_session [waiter]
   \<and> one_per_session (POST_repeat [env_a, env_b, env_b] [waiter] \<lparr>sessionId = alice, chatType = Some Text\<rparr>)
   \<and> length (entries_of (POST_repeat [env_a, env_b, env_b] [waiter]
         \<lparr>sessionId = alice, chatType = Some Text\<rparr>) alice) = 1"
proof -
  have inv: "one_per_session [waiter]"
    by (simp add: one_per_session_def)
  have h: "[env_a, env_b, env_b] \<noteq> []" "sessionId \<lparr>sessionId = alice, chatType = Some Text\<rparr> \<noteq> []"
    "chatType \<lparr>sessionId = alice, chatType = Some Text\<rparr> \<noteq> None"
    by (simp_all add: alice_def utf16_def)
  have "length (entries_of (POST_repeat [env_a, env_b, env_b] [waiter]
         \<lparr>sessionId = alice, chatType = Some Text\<rparr>)
           (sessionId \<lparr>sessionId = alice, chatType = Some Text\<rparr>)) = 1"
    using one_entry_per_session [OF inv, where envs = "[env_a, env_b, env_b]"
        and body = "\<lparr>sessionId = alice, chatType = Some Text\<rparr>"] h
    by blast
  then have "length (entries_of (POST_repeat [env_a, env_b, env_b] [waiter]
         \<lparr>sessionId = alice, chatType = Some Text\<rparr>) alice) = 1"
    by (simp del: POST_repeat.simps)
  then show ?thesis
    using inv POST_repeat_one_per_session [OF inv] by (intro conjI)
qed

section \<open>The oldest waiter is matched first\<close>

lemma sorted_head_least:
  "sorted (map f (y # ys)) \<Longrightarrow> z \<in> set (y # ys) \<Longrightarrow> f y \<le> f z"
  by auto

lemma select_potentialMatch_Some:
  assumes "select_potentialMatch q sid ct = Some w"
  shows "w \<in> set q" "is_candidate sid ct w"
    "w' \<in> set q \<Longrightarrow> is_candidate sid ct w' \<Longrightarrow> created_at w \<le> created_at w'"
proof -
  let ?ys = "sort_key created_at (filter (is_candidate sid ct) q)"
  have one: "take 1 ?ys = [w]"
    using assms unfolding select_potentialMatch_def by (rule maybeSingle_Some)
  then obtain rest where ys: "?ys = w # rest"
    by (cases ?ys) simp_all
  have mem: "set ?ys = set (filter (is_candidate sid ct) q)" by simp
  have "w \<in> set ?ys" using ys by simp
  then show "w \<in> set q" "is_candidate sid ct w" using mem by simp_all
  have srt: "sorted (map created_at (w # rest))"
    using sorted_sort_key [of created_at "filter (is_candidate sid ct) q"] ys by simp
  show "created_at w \<le> created_at w'" if "w' \<in> set q" "is_candidate sid ct w'"
  proof -
    have "w' \<in> set (w # rest)" using that mem ys by simp
    then show ?thesis using srt by (rule sorted_head_least [rotated])
  qed
qed

lemma select_potentialMatch_found:
  assumes "c \<in> set q" "is_candidate sid ct c"
  shows "\<exists>w. select_potentialMatch q sid ct = Some w"
proof -
  let ?ys = "sort_key created_at (filter (is_candidate sid ct) q)"
  have "c \<in> set ?ys" using assms by simp
  then obtain y rest where "?ys = y # rest" by (cases ?ys) auto
  then have "select_potentialMatch q sid ct = Some y"
    by (simp add: select_potentialMatch_def)
  then show ?thesis by blast
qed

lemma select_by_session_absent:
  "sid \<notin> session_id ` set q \<Longrightarrow> select_by_session q sid = None"
proof -
  assume "sid \<notin> session_id ` set q"
  then have "filter (\<lambda>r. session_id r = sid) q = []"
    by (auto simp: filter_empty_conv)
  then show ?thesis by (simp add: select_by_session_def)
qed

text \<open>
  Claim C4. When the queue holds a waiting entry of the caller's chat type that is not
  the caller's own, the candidate a POST selects is such an entry with the smallest
  \<^verbatim>\<open>created_at\<close> among them; a session new to the queue is matched with that entry's
  session. With waiters W1 (time 0) and W2 (time 1) the new arrival is matched with W1.
\<close>

theorem oldest_waiter_first:
  assumes "c \<in> set q" and "is_candidate sid ct c"
  shows "\<exists>w. select_potentialMatch q sid ct = Some w
              \<and> w \<in> set q \<and> is_candidate sid ct w
              \<and> (\<forall>w'\<in>set q. is_candidate sid ct w' \<longrightarrow> created_at w \<le> created_at w')
              \<and> (sid \<noteq> [] \<longrightarrow> sid \<notin> session_id ` set q \<longrightarrow> updateError env = None \<longrightarrow>
                    snd (POST env q (Some \<lparr>sessionId = sid, chatType = Some ct\<rparr>))
                      = MatchedWith (session_id w))"
proof -
  obtain w where w: "select_potentialMatch q sid ct = Some w"
    using select_potentialMatch_found [OF assms] by blast
  have post: "snd (POST env q (Some \<lparr>sessionId = sid, chatType = Some ct\<rparr>)) = MatchedWith (session_id w)"
    if "sid \<noteq> []" "sid \<notin> session_id ` set q" "updateError env = None"
    using that w select_by_session_absent [OF that(2)]
    by (simp add: POST_def POST_claim_def update_matched_with_def)
  have least: "\<forall>w'\<in>set q. is_candidate sid ct w' \<longrightarrow> created_at w \<le> created_at w'"
    using select_potentialMatch_Some(3) [OF w] by simp
  show ?thesis
    using w select_potentialMatch_Some(1,2) [OF w] least post
    by (intro exI [of _ w] conjI impI)
qed

theorem oldest_waiter_first_witness:
  "w1 \<in> set [w2, w1] \<and> is_candidate carol Text w1 \<and> is_candidate carol Text w2
   \<and> created_at w1 < created_at w2
   \<and> select_potentialMatch [w2, w1] carol Text = Some w1
   \<and> snd (POST env_a [w2, w1] (Some \<lparr>sessionId = carol, chatType = Some Text\<rparr>))
       = MatchedWith (session_id w1)"
proof -
  have c1: "w1 \<in> set [w2, w1]" by simp
  have c2: "is_candidate carol Text w1" "is_candidate carol Text w2"
    by (simp_all add: is_candidate_def w1_def w2_def carol_def utf16_def)
  have lt: "created_at w1 < created_at w2" by (simp add: w1_def w2_def)
  have new: "carol \<noteq> []" "carol \<notin> session_id ` set [w2, w1]" "updateError env_a = None"
    by (simp_all add: w1_def w2_def carol_def utf16_def env_a_def)
  obtain w where w: "select_potentialMatch [w2, w1] carol Text = Some w"
    "w \<in> set [w2, w1]" "\<forall>w'\<in>set [w2, w1]. is_candidate carol Text w' \<longrightarrow> created_at w \<le> created_at w'"
    "snd (POST env_a [w2, w1] (Some \<lparr>sessionId = carol, chatType = Some Text\<rparr>))
       = MatchedWith (session_id w)"
    using oldest_waiter_first [OF c1 c2(1), of env_a] new by blast
  have "w \<noteq> w2" using w(3) c1 c2(1) lt by auto
  then have "w = w1" using w(2) by simp
  then show ?thesis using w(1,4) c1 c2 lt by simp
qed

section \<open>The conditional claim\<close>

lemma update_claim_noop: "rows_affected q pid = 0 \<Longrightarrow> update_claim q pid sid t = q"
  by (induction q) (auto simp: rows_affected_def update_claim_def split: if_splits)

lemma rows_affected_after: "rows_affected (update_claim q pid sid t) pid = 0"
  by (auto simp: rows_affected_def update_claim_def filter_empty_conv)

lemma rows_affected_one:
  assumes "E \<in> set q" "matched_with E = None" "distinct (map row_id q)"
  shows "rows_affected q (row_id E) = 1"
  using assms
proof (induction q)
  case Nil
  then show ?case by simp
next
  case (Cons r q)
  show ?case
  proof (cases "r = E")
    case True
    have "row_id E \<notin> row_id ` set q" using Cons.prems(3) True by simp
    then have "filter (\<lambda>r. row_id r = row_id E \<and> matched_with r = None) q = []"
      by (auto simp: filter_empty_conv image_iff)
    then show ?thesis using True Cons.prems(2) by (simp add: rows_affected_def)
  next
    case False
    then have in_q: "E \<in> set q" using Cons.prems(1) by simp
    then have "row_id r \<noteq> row_id E" using Cons.prems(3) by force
    moreover have "rows_affected q (row_id E) = 1"
      using Cons.IH [OF in_q Cons.prems(2)] Cons.prems(3) by simp
    ultimately show ?thesis by (simp add: rows_affected_def)
  qed
qed

lemma update_claim_writes:
  "E \<in> set q \<Longrightarrow> matched_with E = None \<Longrightarrow>
     E\<lparr>matched_with := Some sid, matched_at := Some t\<rparr> \<in> set (update_claim q (row_id E) sid t)"
  by (force simp: update_claim_def)

lemma update_claim_keeps_matched:
  "r \<in> set q \<Longrightarrow> matched_with r \<noteq> None \<Longrightarrow> r \<in> set (update_claim q pid sid t)"
  by (force simp: update_claim_def)

lemma upsert_keeps_others:
  "r \<in> set q \<Longrightarrow> session_id r \<noteq> sid \<Longrightarrow> r \<in> set (upsert env q sid ct mw mt)"
  by (force simp: upsert_def)

text \<open>
  Claim C1. The claim step writes \<^verbatim>\<open>matched_with\<close> only in rows where it is still
  \<^verbatim>\<open>null\<close>; a row that is already matched is left as it is. For a waiting entry \<open>E\<close>
  and two sessions \<open>a\<close> and \<open>b\<close> that both try to claim it, whichever update the
  database carries out first writes \<open>E\<close> (one row), and the other one selects no row
  and leaves the table as it is. As \<open>a\<close> and \<open>b\<close> are arbitrary, this covers both
  orders. Through the whole claim step of the second session the entry keeps the partner
  the first one wrote.
\<close>

theorem conditional_claim_exclusive:
  assumes "E \<in> set q" and "matched_with E = None" and "distinct (map row_id q)"
  shows "rows_affected q (row_id E) = 1
         \<and> E\<lparr>matched_with := Some a, matched_at := Some ta\<rparr> \<in> set (update_claim q (row_id E) a ta)
         \<and> rows_affected (update_claim q (row_id E) a ta) (row_id E) = 0
         \<and> update_claim (update_claim q (row_id E) a ta) (row_id E) b tb
             = update_claim q (row_id E) a ta
         \<and> (\<forall>r\<in>set q. matched_with r \<noteq> None \<longrightarrow> r \<in> set (update_claim q pid s t))
         \<and> (updateError ea = None \<longrightarrow> session_id E \<noteq> a \<longrightarrow> session_id E \<noteq> b \<longrightarrow>
              E\<lparr>matched_with := Some a, matched_at := Some (now ea)\<rparr>
                \<in> set (fst (POST_claim eb (fst (POST_claim ea q a ct (Some E))) b ct' (Some E))))"
proof -
  let ?E' = "E\<lparr>matched_with := Some a, matched_at := Some (now ea)\<rparr>"
  have noop: "update_claim (update_claim q (row_id E) a ta) (row_id E) b tb
             = update_claim q (row_id E) a ta"
    using rows_affected_after by (rule update_claim_noop)
  have race: "?E' \<in> set (fst (POST_claim eb (fst (POST_claim ea q a ct (Some E))) b ct' (Some E)))"
    if ok: "updateError ea = None" and na: "session_id E \<noteq> a" and nb: "session_id E \<noteq> b"
  proof -
    let ?q1 = "update_claim q (row_id E) a (now ea)"
    let ?qa = "upsert ea ?q1 a ct (Some (session_id E)) (Some (now ea))"
    have qa: "fst (POST_claim ea q a ct (Some E)) = ?qa"
      using ok by (simp add: POST_claim_def update_matched_with_def)
    have "?E' \<in> set ?q1" using assms(1,2) by (rule update_claim_writes)
    then have in_qa: "?E' \<in> set ?qa" using na by (intro upsert_keeps_others) simp_all
    have m: "matched_with ?E' \<noteq> None" by simp
    have "?E' \<in> set (update_claim ?qa (row_id E) b (now eb))"
      using in_qa m by (rule update_claim_keeps_matched)
    then have "?E' \<in> set (upsert eb (update_claim ?qa (row_id E) b (now eb)) b ct' mw mt)"
      "?E' \<in> set (upsert eb ?qa b ct' mw mt)" for mw mt
      using nb in_qa by (auto intro!: upsert_keeps_others)
    then show ?thesis
      unfolding qa by (auto simp: POST_claim_def update_matched_with_def split: option.splits)
  qed
  have kept: "\<forall>r\<in>set q. matched_with r \<noteq> None \<longrightarrow> r \<in> set (update_claim q pid s t)"
    using update_claim_keeps_matched by blast
  show ?thesis
    using rows_affected_one [OF assms] update_claim_writes [OF assms(1,2), where sid = a and t = ta]
      rows_affected_after [where q = q and pid = "row_id E" and sid = a and t = ta] noop kept race
    by (intro conjI impI)
qed

theorem conditional_claim_exclusive_witness:
  "waiter \<in> set [waiter] \<and> matched_with waiter = None \<and> distinct (map row_id [waiter])
   \<and> rows_affected [waiter] (row_id waiter) = 1
   \<and> update_claim [waiter] (row_id waiter) alice 200
       = [waiter\<lparr>matched_with := Some alice, matched_at := Some 200\<rparr>]
   \<and> update_claim (update_claim [waiter] (row_id waiter) alice 200) (row_id waiter) bob 201
       = [waiter\<lparr>matched_with := Some alice, matched_at := Some 200\<rparr>]
   \<and> update_claim (update_claim [waiter] (row_id waiter) bob 201) (row_id waiter) alice 200
       = [waiter\<lparr>matched_with := Some bob, matched_at := Some 201\<rparr>]"
proof -
  have h: "waiter \<in> set [waiter]" "matched_with waiter = None" "distinct (map row_id [waiter])"
    by (simp_all add: waiter_def)
  have a: "update_claim [waiter] (row_id waiter) s t = [waiter\<lparr>matched_with := Some s, matched_at := Some t\<rparr>]"
    for s t
    by (simp add: update_claim_def h(2))
  show ?thesis
    using conditional_claim_exclusive [OF h, where a = alice and ta = 200 and b = bob and tb = 201]
      conditional_claim_exclusive [OF h, where a = bob and ta = 201 and b = alice and tb = 200] h
    by (simp add: a)
qed

section \<open>The answer to the session that lost the race\<close>

lemma after_alice_eval:
  "after_alice =
     [waiter\<lparr>matched_with := Some alice, matched_at := Some 200\<rparr>,
      \<lparr>row_id = 2, session_id = alice, chat_type = Video, matched_with = Some (utf16 ''waiter''),
         matched_at = Some 200, created_at = 200\<rparr>]"
  by (simp add: after_alice_def POST_claim_def update_matched_with_def update_claim_def upsert_def
      env_a_def waiter_def alice_def utf16_def)

text \<open>
  Claim C2 at the input where it fails. Both \<open>alice\<close> and \<open>bob\<close> have read the waiter
  as their candidate. The claim step of \<open>alice\<close> runs first. The update of \<open>bob\<close> then
  selects no row, the client reports no error, and the handler goes on as if the claim
  had succeeded: it records the waiter as the partner of \<open>bob\<close> and answers
  \<^verbatim>\<open>{matched: true}\<close>, while the waiter's entry names \<open>alice\<close>.
\<close>

theorem lost_race_still_reports_match:
  "select_potentialMatch [waiter] bob Video = Some waiter
   \<and> rows_affected after_alice (row_id waiter) = 0
   \<and> updateError env_b = None
   \<and> snd (POST_claim env_b after_alice bob Video (Some waiter)) = MatchedWith (utf16 ''waiter'')
   \<and> entries_of (fst (POST_claim env_b after_alice bob Video (Some waiter))) bob
       = [\<lparr>row_id = 3, session_id = bob, chat_type = Video, matched_with = Some (utf16 ''waiter''),
            matched_at = Some 201, created_at = 201\<rparr>]
   \<and> entries_of (fst (POST_claim env_b after_alice bob Video (Some waiter))) (utf16 ''waiter'')
       = [waiter\<lparr>matched_with := Some alice, matched_at := Some 200\<rparr>]"
  unfolding after_alice_eval
  by (simp add: select_potentialMatch_def is_candidate_def rows_affected_def POST_claim_def
      update_matched_with_def update_claim_def upsert_def entries_of_def env_b_def waiter_def
      alice_def bob_def utf16_def)

section \<open>Buffered ICE candidates\<close>

lemma snoc_in_shuffles: "ys @ [c] \<in> shuffles [c] ys"
proof (induction ys)
  case Nil
  then show ?case by simp
next
  case (Cons a ys)
  then have "a # (ys @ [c]) \<in> shuffles [c] (a # ys)"
    by (rule Cons_in_shuffles_rightI)
  then show ?case by simp
qed

lemma shuffles_snoc_left: "zs \<in> shuffles xs ys \<Longrightarrow> zs @ [c] \<in> shuffles (xs @ [c]) ys"
proof (induction xs ys arbitrary: zs rule: shuffles.induct)
  case (1 ys)
  then show ?case using snoc_in_shuffles [of ys c] by simp
next
  case (2 xs)
  then show ?case by simp
next
  case (3 x xs y ys)
  then show ?case by auto
qed

lemma shuffles_snoc_right: "zs \<in> shuffles xs ys \<Longrightarrow> zs @ [c] \<in> shuffles xs (ys @ [c])"
  using shuffles_snoc_left [of zs ys xs c] by (simp add: shuffles_commutes)

lemma buffering_step:
  assumes "buffering s A"
  shows "buffering (step mk myId s e) (A @ arrival mk myId e)
         \<or> (arrival mk myId e = [] \<and> applying (step mk myId s e) A [] (min 1 (length A)))"
proof -
  have start: "applying (addPendingCandidates (s\<lparr>pcRef := Some (setRemoteDescription pc d)\<rparr>))
      A [] (min 1 (length A))"
    if "pcRef s = Some pc" for pc d
  proof (cases A)
    case Nil
    then show ?thesis
      using assms that unfolding applying_def buffering_def
      by (simp add: addPendingCandidates_def hasRemoteDescription_def setRemoteDescription_def
          applied_def)
  next
    case (Cons c cs)
    then show ?thesis
      using assms that unfolding applying_def buffering_def
      by (simp add: addPendingCandidates_def hasRemoteDescription_def setRemoteDescription_def
          applied_def addIceCandidate_def)
  qed
  show ?thesis
  proof (cases e)
    case (IceCandidate to init)
    then show ?thesis
      using assms
      by (auto simp: buffering_def on_ice_candidate_def hasRemoteDescription_def applied_def
          split: option.splits)
  next
    case (Offer to d sig ok)
    then show ?thesis
      using assms start by (auto simp: on_offer_def buffering_def split: option.splits)
  next
    case (Answer to d sig ok)
    then show ?thesis
      using assms start by (auto simp: on_answer_def buffering_def split: option.splits)
  next
    case (Resume k)
    then show ?thesis using assms by (simp add: resume_def buffering_def)
  qed
qed

lemma applying_step:
  assumes "applying s B I j"
  shows "applying (step mk myId s e) B (I @ arrival mk myId e)
           (if e = Resume 0 then min (length B) (Suc j) else j)"
proof -
  obtain n where inv: "hasRemoteDescription s" "pendingCandidates s = []" "j \<le> length B"
    "applied s \<in> shuffles (take j B) I" "draining s = drop j B # replicate n []"
    using assms unfolding applying_def by blast
  obtain pc where pc: "pcRef s = Some pc" "remoteDescription pc \<noteq> None"
    using inv(1) by (auto simp: hasRemoteDescription_def split: option.splits)
  have ap: "applied s = addIceCalls pc" using pc by (simp add: applied_def)
  have again: "applying (addPendingCandidates (s\<lparr>pcRef := Some (setRemoteDescription pc d)\<rparr>)) B I j" for d
  proof -
    let ?s = "addPendingCandidates (s\<lparr>pcRef := Some (setRemoteDescription pc d)\<rparr>)"
    have "hasRemoteDescription ?s" "pendingCandidates ?s = []" "applied ?s = applied s"
      "draining ?s = drop j B # replicate (Suc n) []"
      using inv(2,5) ap
      by (simp_all add: addPendingCandidates_def hasRemoteDescription_def setRemoteDescription_def
          applied_def replicate_append_same)
    then show ?thesis using inv(3,4) unfolding applying_def by metis
  qed
  show ?thesis
  proof (cases e)
    case (IceCandidate to init)
    show ?thesis
    proof (cases "to = myId")
      case False
      then show ?thesis using assms IceCandidate by (simp add: on_ice_candidate_def)
    next
      case True
      show ?thesis
      proof (cases "mk init")
        case None
        then show ?thesis using assms IceCandidate True by (simp add: on_ice_candidate_def)
      next
        case (Some c)
        let ?s = "s\<lparr>pcRef := Some (addIceCandidate pc c)\<rparr>"
        have st: "step mk myId s e = ?s"
          using IceCandidate True Some inv(1) pc by (simp add: on_ice_candidate_def)
        have "hasRemoteDescription ?s" "pendingCandidates ?s = []" "draining ?s = draining s"
          "applied ?s = applied s @ [c]"
          using pc inv(2) ap
          by (simp_all add: hasRemoteDescription_def addIceCandidate_def applied_def)
        moreover have "applied s @ [c] \<in> shuffles (take j B) (I @ [c])"
          using inv(4) by (rule shuffles_snoc_right)
        ultimately have "applying ?s B (I @ [c]) j"
          using inv(3,5) unfolding applying_def by metis
        then show ?thesis using st IceCandidate True Some by simp
      qed
    qed
  next
    case (Offer to d sig ok)
    then show ?thesis using assms again pc by (simp add: on_offer_def)
  next
    case (Answer to d sig ok)
    then show ?thesis using assms again pc by (simp add: on_answer_def)
  next
    case (Resume k)
    show ?thesis
    proof (cases "k = 0 \<and> j < length B")
      case False
      have "draining s ! k = []" if "k < length (draining s)"
      proof (cases k)
        case 0
        then show ?thesis using False inv(3,5) by simp
      next
        case (Suc k')
        then show ?thesis using that inv(5) by simp
      qed
      then have st: "step mk myId s e = s" using Resume by (simp add: resume_def)
      have "(if e = Resume 0 then min (length B) (Suc j) else j) = j"
        using False Resume inv(3) by auto
      then show ?thesis using assms Resume st by simp
    next
      case True
      let ?c = "B ! j"
      let ?s = "s\<lparr>pcRef := Some (addIceCandidate pc ?c),
                   draining := drop (Suc j) B # replicate n []\<rparr>"
      have hd: "drop j B = ?c # drop (Suc j) B"
        using True by (simp add: Cons_nth_drop_Suc)
      have st: "step mk myId s e = ?s"
        using Resume True inv(5) pc hd by (simp add: resume_def)
      have "hasRemoteDescription ?s" "pendingCandidates ?s = []"
        "draining ?s = drop (Suc j) B # replicate n []" "applied ?s = applied s @ [?c]"
        using pc inv(2) ap
        by (simp_all add: hasRemoteDescription_def addIceCandidate_def applied_def)
      moreover have "applied s @ [?c] \<in> shuffles (take (Suc j) B) I"
        using shuffles_snoc_left [OF inv(4), of ?c] True by (simp add: take_Suc_conv_app_nth)
      moreover have "Suc j \<le> length B" using True by simp
      ultimately have "applying ?s B I (Suc j)"
        unfolding applying_def by metis
      moreover have "(if e = Resume 0 then min (length B) (Suc j) else j) = Suc j"
        using True Resume by simp
      ultimately show ?thesis using st Resume by simp
    qed
  qed
qed

lemma run_snoc: "run mk myId (evs @ [e]) s = step mk myId (run mk myId evs s) e"
  by (simp add: run_def)

lemma run_append: "run mk myId (evs @ evs') s = run mk myId evs' (run mk myId evs s)"
  by (simp add: run_def)

lemma arrivals_snoc: "arrivals mk myId (evs @ [e]) = arrivals mk myId evs @ arrival mk myId e"
  by (simp add: arrivals_def)

lemma loop_turns_snoc:
  "loop_turns (evs @ [e]) = loop_turns evs + (if e = Resume 0 then 1 else 0)"
  by (induction evs) (simp_all add: loop_turns_def)

lemma loop_turns_replicate: "loop_turns (replicate k (Resume 0)) = k"
  by (induction k) (simp_all add: loop_turns_def)

lemma arrivals_replicate: "arrivals mk myId (replicate k (Resume 0)) = []"
  by (induction k) (simp_all add: arrivals_def)

lemma applying_run:
  "applying s B I j \<Longrightarrow>
     applying (run mk myId evs s) B (I @ arrivals mk myId evs) (min (length B) (j + loop_turns evs))"
proof (induction evs rule: rev_induct)
  case Nil
  then have "j \<le> length B" by (simp add: applying_def)
  then show ?case using Nil by (simp add: run_def arrivals_def loop_turns_def min_def)
next
  case (snoc e evs)
  let ?j = "min (length B) (j + loop_turns evs)"
  have "applying (step mk myId (run mk myId evs s) e) B
          ((I @ arrivals mk myId evs) @ arrival mk myId e)
          (if e = Resume 0 then min (length B) (Suc ?j) else ?j)"
    using snoc by (intro applying_step) simp
  moreover have "(if e = Resume 0 then min (length B) (Suc ?j) else ?j)
      = min (length B) (j + loop_turns (evs @ [e]))"
    by (simp add: loop_turns_snoc min_def)
  ultimately show ?case
    by (simp add: run_snoc arrivals_snoc)
qed

lemma applying_has_remote: "applying s B I j \<Longrightarrow> hasRemoteDescription s"
  by (simp add: applying_def)

lemma has_remote_step: "hasRemoteDescription s \<Longrightarrow> hasRemoteDescription (step mk myId s e)"
proof -
  assume h: "hasRemoteDescription s"
  then obtain pc where pc: "pcRef s = Some pc" "remoteDescription pc \<noteq> None"
    by (auto simp: hasRemoteDescription_def split: option.splits)
  show ?thesis
    using h pc
    by (cases e)
      (auto simp: on_ice_candidate_def on_offer_def on_answer_def resume_def addPendingCandidates_def
        hasRemoteDescription_def addIceCandidate_def setRemoteDescription_def
        split: option.splits list.splits)
qed

lemma buffering_run:
  assumes "buffering s A" and "\<not> hasRemoteDescription (run mk myId evs s)"
  shows "buffering (run mk myId evs s) (A @ arrivals mk myId evs)"
  using assms(2)
proof (induction evs rule: rev_induct)
  case Nil
  then show ?case using assms(1) by (simp add: run_def arrivals_def)
next
  case (snoc e evs)
  have "\<not> hasRemoteDescription (run mk myId evs s)"
    using snoc.prems has_remote_step [of "run mk myId evs s" mk myId e] by (auto simp: run_snoc)
  then have b: "buffering (run mk myId evs s) (A @ arrivals mk myId evs)"
    by (rule snoc.IH)
  show ?case
    using buffering_step [OF b, of mk myId e] snoc.prems applying_has_remote
    by (auto simp: run_snoc arrivals_snoc)
qed

lemma buffering_created: "buffering connection_created []"
  by (simp add: buffering_def connection_created_def hasRemoteDescription_def applied_def)

lemma drained_after:
  assumes before: "\<not> hasRemoteDescription (run mk myId evs1 connection_created)"
    and after: "hasRemoteDescription (run mk myId (evs1 @ [e]) connection_created)"
  shows "buffering (run mk myId evs1 connection_created) (arrivals mk myId evs1)"
    and "applying (run mk myId (evs1 @ e # evs2) connection_created)
           (arrivals mk myId evs1) (arrivals mk myId evs2)
           (min (length (arrivals mk myId evs1)) (Suc (loop_turns evs2)))"
proof -
  let ?s1 = "run mk myId evs1 connection_created"
  let ?s = "run mk myId (evs1 @ e # evs2) connection_created"
  let ?B = "arrivals mk myId evs1"
  let ?I = "arrivals mk myId evs2"
  show b: "buffering ?s1 ?B"
    using buffering_run [OF buffering_created before] by simp
  have "applying (step mk myId ?s1 e) ?B [] (min 1 (length ?B))"
    using buffering_step [OF b, of mk myId e] after by (auto simp: run_snoc buffering_def)
  then have "applying (run mk myId evs2 (step mk myId ?s1 e)) ?B ([] @ ?I)
      (min (length ?B) (min 1 (length ?B) + loop_turns evs2))"
    by (rule applying_run)
  moreover have "?s = run mk myId evs2 (step mk myId ?s1 e)"
    using run_append [of mk myId "evs1 @ [e]" evs2 connection_created] by (simp add: run_snoc)
  moreover have "min (length ?B) (min 1 (length ?B) + loop_turns evs2)
      = min (length ?B) (Suc (loop_turns evs2))"
    by (simp add: min_def)
  ultimately show "applying ?s ?B ?I (min (length ?B) (Suc (loop_turns evs2)))" by simp
qed

text \<open>
  Claim C7. Take any sequence of events after which no remote description is set, an
  event that sets it, and any sequence of events after that. Before the remote
  description is set, the buffer holds the candidates that arrived, in the order of
  arrival, and none has been applied. From the moment it is set the buffer is empty.
  The handler that set it applies the first buffered candidate at once, and every turn
  of its loop applies the next one: after \<open>t\<close> turns exactly the first \<open>t + 1\<close>
  buffered candidates (or all of them, if there are fewer) have been applied, in the
  order of arrival, interleaved with the candidates that arrived later, each of which is
  applied when it arrives. The rest of the buffered candidates waits in that one loop,
  and every other loop has nothing to apply. Once the loop has had as many turns as
  there are buffered candidates to go, every candidate that arrived has been applied
  exactly once; if nothing else happens in between, the candidates applied are the
  buffered ones in the order of arrival.
\<close>

theorem candidates_buffered_then_drained:
  assumes before: "\<not> hasRemoteDescription (run mk myId evs1 connection_created)"
    and after: "hasRemoteDescription (run mk myId (evs1 @ [e]) connection_created)"
  shows "pendingCandidates (run mk myId evs1 connection_created) = arrivals mk myId evs1
         \<and> applied (run mk myId evs1 connection_created) = []
         \<and> pendingCandidates (run mk myId (evs1 @ e # evs2) connection_created) = []
         \<and> applied (run mk myId (evs1 @ e # evs2) connection_created)
             \<in> shuffles (take (min (length (arrivals mk myId evs1)) (Suc (loop_turns evs2)))
                           (arrivals mk myId evs1))
                        (arrivals mk myId evs2)
         \<and> (\<exists>n. draining (run mk myId (evs1 @ e # evs2) connection_created)
               = drop (min (length (arrivals mk myId evs1)) (Suc (loop_turns evs2)))
                   (arrivals mk myId evs1) # replicate n [])
         \<and> (length (arrivals mk myId evs1) \<le> Suc (loop_turns evs2) \<longrightarrow>
               applied (run mk myId (evs1 @ e # evs2) connection_created)
                 \<in> shuffles (arrivals mk myId evs1) (arrivals mk myId evs2)
               \<and> concat (draining (run mk myId (evs1 @ e # evs2) connection_created)) = [])
         \<and> applied (run mk myId
               (evs1 @ e # replicate (length (arrivals mk myId evs1) - 1) (Resume 0))
               connection_created)
             = arrivals mk myId evs1"
proof -
  let ?s1 = "run mk myId evs1 connection_created"
  let ?s = "run mk myId (evs1 @ e # evs2) connection_created"
  let ?B = "arrivals mk myId evs1"
  let ?I = "arrivals mk myId evs2"
  let ?j = "min (length ?B) (Suc (loop_turns evs2))"
  have b: "buffering ?s1 ?B"
    using before after by (rule drained_after(1))
  have a: "applying ?s ?B ?I ?j"
    using before after by (rule drained_after(2))
  then obtain n where jn: "applied ?s \<in> shuffles (take ?j ?B) ?I"
    "draining ?s = drop ?j ?B # replicate n []" "pendingCandidates ?s = []"
    unfolding applying_def by blast
  have fin: "applied ?s \<in> shuffles ?B ?I \<and> concat (draining ?s) = []"
    if "length ?B \<le> Suc (loop_turns evs2)"
  proof -
    have "?j = length ?B" using that by simp
    then show ?thesis using jn(1,2) by simp
  qed
  have alone: "applied (run mk myId (evs1 @ e # replicate (length ?B - 1) (Resume 0))
      connection_created) = ?B"
  proof -
    have "applied (run mk myId (evs1 @ e # replicate (length ?B - 1) (Resume 0))
          connection_created)
        \<in> shuffles (take (min (length ?B) (Suc (length ?B - 1))) ?B) []"
      using drained_after(2) [OF before after, of "replicate (length ?B - 1) (Resume 0)"]
      by (simp add: applying_def arrivals_replicate loop_turns_replicate)
    moreover have "min (length ?B) (Suc (length ?B - 1)) = length ?B" by simp
    ultimately show ?thesis by simp
  qed
  have p1: "pendingCandidates ?s1 = ?B" "applied ?s1 = []"
    using b by (simp_all add: buffering_def)
  show ?thesis
    using p1 jn fin alone by (intro conjI impI exI [of _ n]) simp_all
qed

theorem candidates_buffered_then_drained_witness:
  "\<not> hasRemoteDescription (run Some me example_events connection_created)
   \<and> hasRemoteDescription (run Some me (example_events @ [example_offer]) connection_created)
   \<and> pendingCandidates (run Some me example_events connection_created) = [1, 2]
   \<and> pendingCandidates (run Some me (example_events @ [example_offer]) connection_created) = []
   \<and> applied (run Some me (example_events @ [example_offer]) connection_created) = [1]
   \<and> applied (run Some me (example_events @ example_offer # example_later) connection_created)
       = [1, 3, 2]
   \<and> applied (run Some me (example_events @ example_offer # example_later) connection_created)
       \<in> shuffles [1, 2] [3]
   \<and> applied (run Some me (example_events @ [example_offer, Resume 0]) connection_created)
       = [1, 2]"
proof -
  note defs = run_def example_events_def example_offer_def example_later_def connection_created_def
    on_ice_candidate_def on_offer_def addPendingCandidates_def resume_def hasRemoteDescription_def
    setRemoteDescription_def addIceCandidate_def applied_def arrivals_def loop_turns_def me_def
    utf16_def
  have h1: "\<not> hasRemoteDescription (run Some me example_events connection_created)"
    by (simp add: defs)
  have h2: "hasRemoteDescription (run Some me (example_events @ [example_offer]) connection_created)"
    by (simp add: defs)
  have ar: "arrivals Some me example_events = [1, 2]" "arrivals Some me example_later = [3]"
    by (simp_all add: defs)
  have turns: "length (arrivals Some me example_events) \<le> Suc (loop_turns example_later)"
    by (simp add: defs)
  have ap: "applied (run Some me (example_events @ example_offer # example_later) connection_created)
       = [1, 3, 2]"
    "applied (run Some me (example_events @ [example_offer]) connection_created) = [1]"
    by (simp_all add: defs)
  have rp: "replicate (length [1, 2 :: nat] - 1) (Resume 0 :: (nat, string) event) = [Resume 0]"
    by simp
  have "pendingCandidates (run Some me example_events connection_created) = [1, 2]"
    "applied (run Some me (example_events @ example_offer # example_later) connection_created)
       \<in> shuffles [1, 2] [3]"
    "applied (run Some me (example_events @ [example_offer, Resume 0]) connection_created) = [1, 2]"
    using candidates_buffered_then_drained [OF h1 h2, of example_later] turns rp unfolding ar
    by simp_all
  moreover have "pendingCandidates (run Some me (example_events @ [example_offer]) connection_created) = []"
    using candidates_buffered_then_drained [OF h1 h2, of "[]"] by simp
  ultimately show ?thesis using h1 h2 ap by simp
qed

end
